theory Spec2Isabelle
  imports Main "HOL-Library.Word" "HOL-Library.AList"
begin

section \<open>Data model\<close>

text \<open>
  Go strings and byte slices are sequences of bytes: \<^typ>\<open>string\<close>. The string-typed
  discriminants (\<open>EventType\<close>, \<open>EventDeltaType\<close>, \<open>ContentType\<close>, \<open>Role\<close>) stay
  strings, so that a value outside the declared constants exists in the model as it does
  in Go. A nil pointer or nil interface value is \<open>None\<close>.
\<close>

type_synonym EventType = string
type_synonym EventDeltaType = string
type_synonym ContentType = string
type_synonym Role = string

definition EventTypePing :: EventType where "EventTypePing = ''ping''"
definition EventTypeMessageStart :: EventType where "EventTypeMessageStart = ''message_start''"
definition EventTypeMessageDelta :: EventType where "EventTypeMessageDelta = ''message_delta''"
definition EventTypeMessageStop :: EventType where "EventTypeMessageStop = ''message_stop''"
definition EventTypeContentBlockStart :: EventType where
  "EventTypeContentBlockStart = ''content_block_start''"
definition EventTypeContentBlockDelta :: EventType where
  "EventTypeContentBlockDelta = ''content_block_delta''"
definition EventTypeContentBlockStop :: EventType where
  "EventTypeContentBlockStop = ''content_block_stop''"

definition EventDeltaTypeText :: EventDeltaType where "EventDeltaTypeText = ''text_delta''"
definition EventDeltaTypeInputJSON :: EventDeltaType where
  "EventDeltaTypeInputJSON = ''input_json_delta''"
definition EventDeltaTypeThinking :: EventDeltaType where
  "EventDeltaTypeThinking = ''thinking_delta''"
definition EventDeltaTypeSignature :: EventDeltaType where
  "EventDeltaTypeSignature = ''signature_delta''"
definition EventDeltaTypeCitations :: EventDeltaType where
  "EventDeltaTypeCitations = ''citations_delta''"

definition ContentTypeText :: ContentType where "ContentTypeText = ''text''"
definition ContentTypeImage :: ContentType where "ContentTypeImage = ''image''"
definition ContentTypeDocument :: ContentType where "ContentTypeDocument = ''document''"
definition ContentTypeToolUse :: ContentType where "ContentTypeToolUse = ''tool_use''"
definition ContentTypeToolResult :: ContentType where "ContentTypeToolResult = ''tool_result''"
definition ContentTypeThinking :: ContentType where "ContentTypeThinking = ''thinking''"
definition ContentTypeRedactedThinking :: ContentType where
  "ContentTypeRedactedThinking = ''redacted_thinking''"
definition ContentTypeServerToolUse :: ContentType where
  "ContentTypeServerToolUse = ''server_tool_use''"
definition ContentTypeWebSearchToolResult :: ContentType where
  "ContentTypeWebSearchToolResult = ''web_search_tool_result''"
definition ContentTypeMCPToolUse :: ContentType where "ContentTypeMCPToolUse = ''mcp_tool_use''"
definition ContentTypeMCPToolResult :: ContentType where
  "ContentTypeMCPToolResult = ''mcp_tool_result''"
definition ContentTypeMCPListTools :: ContentType where
  "ContentTypeMCPListTools = ''mcp_list_tools''"
definition ContentTypeMCPApprovalRequest :: ContentType where
  "ContentTypeMCPApprovalRequest = ''mcp_approval_request''"
definition ContentTypeMCPApprovalResponse :: ContentType where
  "ContentTypeMCPApprovalResponse = ''mcp_approval_response''"
definition ContentTypeCodeExecutionToolResult :: ContentType where
  "ContentTypeCodeExecutionToolResult = ''code_execution_tool_result''"
definition ContentTypeRefusal :: ContentType where "ContentTypeRefusal = ''refusal''"

definition User :: Role where "User = ''user''"
definition Assistant :: Role where "Assistant = ''assistant''"
definition System :: Role where "System = ''system''"

text \<open>
  Go's \<open>int\<close> on a 64-bit target; \<open>+=\<close> on the usage counters wraps around. Indices of
  content blocks are never added to, only compared and sorted, so they are mathematical
  integers.
\<close>

type_synonym go_int = "64 word"

record Usage =
  InputTokens :: go_int
  OutputTokens :: go_int
  CacheCreationInputTokens :: go_int
  CacheReadInputTokens :: go_int

text \<open>
  The concrete types behind the \<open>Content\<close> interface, one constructor each. The four
  that the accumulator builds carry the fields it writes; the fields of the others, and
  the citations of a text block, are never inspected by the code modelled here and are
  kept opaque.
\<close>

typedecl fields

datatype Content =
    TextContent string "string option" "fields list"
  | ToolUseContent string string string
  | ThinkingContent string string string
  | RedactedThinkingContent string
  | RefusalContent fields
  | ImageContent fields
  | DocumentContent fields
  | ToolResultContent fields
  | ServerToolUseContent fields
  | WebSearchToolResultContent fields
  | MCPToolUseContent fields
  | MCPToolResultContent fields
  | MCPListToolsContent fields
  | MCPApprovalRequestContent fields
  | MCPApprovalResponseContent fields
  | CodeExecutionToolResultContent fields

fun Content_Type :: "Content \<Rightarrow> ContentType" where
  "Content_Type (TextContent _ _ _) = ContentTypeText"
| "Content_Type (ToolUseContent _ _ _) = ContentTypeToolUse"
| "Content_Type (ThinkingContent _ _ _) = ContentTypeThinking"
| "Content_Type (RedactedThinkingContent _) = ContentTypeRedactedThinking"
| "Content_Type (RefusalContent _) = ContentTypeRefusal"
| "Content_Type (ImageContent _) = ContentTypeImage"
| "Content_Type (DocumentContent _) = ContentTypeDocument"
| "Content_Type (ToolResultContent _) = ContentTypeToolResult"
| "Content_Type (ServerToolUseContent _) = ContentTypeServerToolUse"
| "Content_Type (WebSearchToolResultContent _) = ContentTypeWebSearchToolResult"
| "Content_Type (MCPToolUseContent _) = ContentTypeMCPToolUse"
| "Content_Type (MCPToolResultContent _) = ContentTypeMCPToolResult"
| "Content_Type (MCPListToolsContent _) = ContentTypeMCPListTools"
| "Content_Type (MCPApprovalRequestContent _) = ContentTypeMCPApprovalRequest"
| "Content_Type (MCPApprovalResponseContent _) = ContentTypeMCPApprovalResponse"
| "Content_Type (CodeExecutionToolResultContent _) = ContentTypeCodeExecutionToolResult"

text \<open>
  \<open>Response.Content\<close> is a slice of interface values; the accumulator can store a nil
  interface in it (a block whose discriminant it does not know), hence the \<open>option\<close>.
\<close>

record Response =
  ID :: string
  Model :: string
  Role :: Role
  Content :: "Content option list"
  StopReason :: string
  StopSequence :: "string option"
  Type :: string
  Usage :: Usage

text \<open>
  A message holds blocks that are values of the concrete types (no nil interface):
  \<open>reorderMessageContent\<close> calls \<open>Type()\<close> on each of them.
\<close>

record Message =
  ID :: string
  Role :: Role
  Content :: "Content list"

record EventContentBlock =
  Type :: ContentType
  Text :: string
  ID :: string
  Name :: string
  Input :: string
  Thinking :: string
  Signature :: string

record EventDelta =
  Type :: EventDeltaType
  Text :: string
  Index :: int
  StopReason :: string
  StopSequence :: string
  PartialJSON :: string
  Thinking :: string
  Signature :: string

record Event =
  Type :: EventType
  Index :: "int option"
  Message :: "Response option"
  ContentBlock :: "EventContentBlock option"
  Delta :: "EventDelta option"
  Usage :: "Usage option"

text \<open>
  The map \<open>contentBlocks\<close> is an association list read through \<^const>\<open>map_of\<close> and
  written with \<^const>\<open>AList.update\<close>; its keys are \<open>remdups (map fst m)\<close>.
\<close>

record ResponseAccumulator =
  response :: "Response option"
  contentBlocks :: "(int \<times> Content option) list"
  complete :: bool

text \<open>
  Error values: \<open>EOF\<close> is the sentinel \<open>io.EOF\<close>, \<open>Error msg\<close> any other error value
  with its message, \<open>Panic\<close> a run-time panic (nil pointer dereference).
\<close>

datatype error = EOF | Error string | Panic

section \<open>The response accumulator (stream.go)\<close>

definition NewResponseAccumulator :: ResponseAccumulator where
  "NewResponseAccumulator = \<lparr>response = None, contentBlocks = [], complete = False\<rparr>"

text \<open>
  The inner switch of the \<open>content_block_start\<close> case: the block built from the event's
  payload. There is no default case, so \<open>content\<close> stays the nil interface for any other
  discriminant.
\<close>

definition startContent :: "EventContentBlock \<Rightarrow> Content option" where
  "startContent cb =
     (if EventContentBlock.Type cb = ContentTypeText then
        Some (TextContent (EventContentBlock.Text cb) None [])
      else if EventContentBlock.Type cb = ContentTypeToolUse then
        Some (ToolUseContent (EventContentBlock.ID cb) (EventContentBlock.Name cb) [])
      else if EventContentBlock.Type cb = ContentTypeThinking then
        Some (ThinkingContent [] (EventContentBlock.Thinking cb) (EventContentBlock.Signature cb))
      else if EventContentBlock.Type cb = ContentTypeRedactedThinking then
        Some (RedactedThinkingContent [])
      else None)"

text \<open>\<open>len(r.contentBlocks)\<close>: the number of keys of the map.\<close>

definition len :: "(int \<times> Content option) list \<Rightarrow> int" where
  "len m = int (length (remdups (map fst m)))"

text \<open>
  The switch on the delta's discriminant in the \<open>content_block_delta\<close> case, applied to
  the block found at the index: \<open>Inl\<close> is the message of the error returned, \<open>Inr\<close> the
  block after the append. The type assertions fail on the nil interface as on any other
  variant. A discriminant with no case leaves the block as it is.
\<close>

definition mergeDelta :: "EventDelta \<Rightarrow> Content option \<Rightarrow> string + Content option" where
  "mergeDelta delta content =
     (if EventDelta.Type delta = EventDeltaTypeText then
        (case content of
           Some (TextContent text cc cits) \<Rightarrow>
             Inr (Some (TextContent (text @ EventDelta.Text delta) cc cits))
         | _ \<Rightarrow> Inl ''in-progress block is not a text content'')
      else if EventDelta.Type delta = EventDeltaTypeInputJSON then
        (case content of
           Some (ToolUseContent ident name input) \<Rightarrow>
             Inr (Some (ToolUseContent ident name (input @ EventDelta.PartialJSON delta)))
         | _ \<Rightarrow> Inl ''in-progress block is not a tool use content'')
      else if EventDelta.Type delta = EventDeltaTypeThinking
              \<or> EventDelta.Type delta = EventDeltaTypeSignature then
        (case content of
           Some (ThinkingContent ident thinking signature) \<Rightarrow>
             Inr (Some (ThinkingContent ident (thinking @ EventDelta.Thinking delta)
                                             (signature @ EventDelta.Signature delta)))
         | _ \<Rightarrow> Inl ''in-progress block is not a thinking content'')
      else Inr content)"

text \<open>
  \<open>finalizeContent\<close>: the keys sorted ascending, then the block of each key. A lookup of
  a Go map gives the zero value (the nil interface) for a missing key.
\<close>

definition finalizeContent :: "ResponseAccumulator \<Rightarrow> ResponseAccumulator" where
  "finalizeContent r =
     (case response r of
        None \<Rightarrow> r
      | Some resp \<Rightarrow>
          if len (contentBlocks r) = 0 then r
          else
            let indices = sort (remdups (map fst (contentBlocks r)));
                content = map (\<lambda>index. case map_of (contentBlocks r) index of
                                          None \<Rightarrow> None | Some c \<Rightarrow> c) indices
            in r\<lparr>response := Some (resp\<lparr>Response.Content := content\<rparr>)\<rparr>)"

text \<open>
  The tail of \<open>AddEvent\<close>, reached by every case that does not return early: the four
  counters of the event's usage are added onto the response's. With no response the
  field access \<open>r.response.Usage\<close> dereferences a nil pointer.
\<close>

definition addUsage :: "Usage \<Rightarrow> Usage \<Rightarrow> Usage" where
  "addUsage tot u =
     tot\<lparr>InputTokens := InputTokens tot + InputTokens u,
           OutputTokens := OutputTokens tot + OutputTokens u,
           CacheReadInputTokens := CacheReadInputTokens tot + CacheReadInputTokens u,
           CacheCreationInputTokens :=
             CacheCreationInputTokens tot + CacheCreationInputTokens u\<rparr>"

definition updateUsage :: "ResponseAccumulator \<Rightarrow> Event \<Rightarrow> error option \<times> ResponseAccumulator" where
  "updateUsage r event =
     (case Event.Usage event of
        None \<Rightarrow> (None, r)
      | Some u \<Rightarrow>
          (case response r of
             None \<Rightarrow> (Some Panic, r)
           | Some resp \<Rightarrow>
               (None, r\<lparr>response :=
                          Some (resp\<lparr>Response.Usage := addUsage (Response.Usage resp) u\<rparr>)\<rparr>)))"

text \<open>
  \<open>AddEvent\<close> returns the error (\<open>None\<close> is Go's nil error, \<open>Some Panic\<close> a run-time
  panic) and the accumulator as the call leaves it. Blocks are held by value: the map
  entry of a block is replaced where Go appends through the pointer, and the content
  that \<open>finalizeContent\<close> assigns is the blocks as they are at that moment (in Go the
  slice shares the pointers of the map, so a delta that arrives after the content was
  frozen would still show in it).
\<close>

definition AddEvent :: "ResponseAccumulator \<Rightarrow> Event \<Rightarrow> error option \<times> ResponseAccumulator" where
  "AddEvent r event =
     (if Event.Type event = EventTypeMessageStart then
        (case Message event of
           None \<Rightarrow> (Some (Error ''invalid message start event''), r)
         | Some m \<Rightarrow> (None, r\<lparr>response := Some m\<rparr>))
      else if Event.Type event = EventTypeContentBlockStart then
        (if response r = None then (Some (Error ''no message start event found''), r)
         else
           (case ContentBlock event of
              None \<Rightarrow> (Some (Error ''no content block found in event''), r)
            | Some cb \<Rightarrow>
                let content = startContent cb in
                (case Event.Index event of
                   Some i \<Rightarrow>
                     updateUsage (r\<lparr>contentBlocks := AList.update i content (contentBlocks r)\<rparr>)
                       event
                 | None \<Rightarrow>
                     let nextIndex = len (contentBlocks r) in
                     updateUsage
                       (r\<lparr>contentBlocks := AList.update nextIndex content (contentBlocks r)\<rparr>)
                       event)))
      else if Event.Type event = EventTypeContentBlockDelta then
        (case (response r, Delta event, Event.Index event) of
           (Some resp, Some delta, Some i) \<Rightarrow>
             (case map_of (contentBlocks r) i of
                None \<Rightarrow> (Some (Error ''content block not found for index''), r)
              | Some content \<Rightarrow>
                  (case mergeDelta delta content of
                     Inl msg \<Rightarrow> (Some (Error msg), r)
                   | Inr content' \<Rightarrow>
                       updateUsage
                         (r\<lparr>contentBlocks := AList.update i content' (contentBlocks r)\<rparr>)
                         event))
         | _ \<Rightarrow> (Some (Error ''invalid content block delta event''), r))
      else if Event.Type event = EventTypeMessageDelta then
        (case (response r, Delta event) of
           (Some resp, Some delta) \<Rightarrow>
             let resp1 = (if EventDelta.StopReason delta \<noteq> []
                          then resp\<lparr>Response.StopReason := EventDelta.StopReason delta\<rparr>
                          else resp);
                 resp2 = (if EventDelta.StopSequence delta \<noteq> []
                          then resp1\<lparr>Response.StopSequence :=
                                        Some (EventDelta.StopSequence delta)\<rparr>
                          else resp1)
             in updateUsage (r\<lparr>response := Some resp2\<rparr>) event
         | _ \<Rightarrow> (Some (Error ''invalid message delta event''), r))
      else if Event.Type event = EventTypeMessageStop then
        updateUsage (finalizeContent (r\<lparr>complete := True\<rparr>)) event
      else updateUsage r event)"

definition IsComplete :: "ResponseAccumulator \<Rightarrow> bool" where
  "IsComplete r = complete r"

text \<open>
  The caller's loop over a stream: each event goes through \<open>AddEvent\<close> in turn, and the
  first error ends the loop.
\<close>

fun AddEvents :: "ResponseAccumulator \<Rightarrow> Event list \<Rightarrow> error option \<times> ResponseAccumulator" where
  "AddEvents r [] = (None, r)"
| "AddEvents r (event # events) =
     (case AddEvent r event of
        (None, r') \<Rightarrow> AddEvents r' events
      | (Some e, r') \<Rightarrow> (Some e, r'))"

section \<open>The server-sent events reader\<close>

text \<open>
  The reader's \<open>body\<close> and \<open>bufio.Reader\<close> are the bytes not yet read (\<open>pending\<close>) and
  the error the underlying stream gives once they are used up (\<open>final\<close>, normally
  \<open>io.EOF\<close>). The callback is a function of the line; \<open>None\<close> is the nil callback.
\<close>

record ServerSentEventsReader =
  pending :: string
  final :: error
  err :: "error option"
  sseCallback :: "(string \<Rightarrow> error option) option"

definition NewServerSentEventsReader :: "string \<Rightarrow> error \<Rightarrow> ServerSentEventsReader" where
  "NewServerSentEventsReader stream end =
     \<lparr>pending = stream, final = end, err = None, sseCallback = None\<rparr>"

definition WithSSECallback ::
  "ServerSentEventsReader \<Rightarrow> (string \<Rightarrow> error option) \<Rightarrow> ServerSentEventsReader" where
  "WithSSECallback s callback = s\<lparr>sseCallback := Some callback\<rparr>"

definition ServerSentEventsReader_Err :: "ServerSentEventsReader \<Rightarrow> error option" where
  "ServerSentEventsReader_Err s = ServerSentEventsReader.err s"

text \<open>
  \<open>bufio.Reader.ReadBytes(delim)\<close>: the bytes up to and including the first delimiter,
  or, when the stream ends before one, the bytes read so far together with the error.
\<close>

fun readUntil :: "char \<Rightarrow> string \<Rightarrow> (string \<times> string) option" where
  "readUntil delim [] = None"
| "readUntil delim (c # cs) =
     (if c = delim then Some ([c], cs)
      else (case readUntil delim cs of
              None \<Rightarrow> None
            | Some (line, rest) \<Rightarrow> Some (c # line, rest)))"

definition ReadBytes ::
  "char \<Rightarrow> ServerSentEventsReader \<Rightarrow> (string \<times> error option) \<times> ServerSentEventsReader" where
  "ReadBytes delim s =
     (case readUntil delim (pending s) of
        Some (line, rest) \<Rightarrow> ((line, None), s\<lparr>pending := rest\<rparr>)
      | None \<Rightarrow> ((pending s, Some (final s)), s\<lparr>pending := []\<rparr>))"

definition TrimPrefix :: "string \<Rightarrow> string \<Rightarrow> string" where
  "TrimPrefix s p = (if take (length p) s = p then drop (length p) s else s)"

definition HasPrefix :: "string \<Rightarrow> string \<Rightarrow> bool" where
  "HasPrefix s p = (take (length p) s = p)"

text \<open>
  \<open>Next\<close>. Go's \<open>bytes.TrimSpace\<close> and \<open>json.Unmarshal\<close> into the type parameter \<open>T\<close>
  belong to the standard library and are parameters here. The result \<open>None\<close> is
  \<open>(zero, false)\<close>, \<open>Some event\<close> is \<open>(event, true)\<close>.
\<close>

function ServerSentEventsReader_Next ::
  "(string \<Rightarrow> string) \<Rightarrow> (string \<Rightarrow> error + 'T) \<Rightarrow> ServerSentEventsReader
     \<Rightarrow> 'T option \<times> ServerSentEventsReader" where
  "ServerSentEventsReader_Next TrimSpace Unmarshal s =
     (case ReadBytes (CHR 0x0A) s of
        ((line, Some e), s1) \<Rightarrow>
          if e \<noteq> EOF then (None, s1\<lparr>err := Some e\<rparr>) else (None, s1)
      | ((line, None), s1) \<Rightarrow>
          (case (case sseCallback s1 of None \<Rightarrow> None | Some callback \<Rightarrow> callback line) of
             Some e \<Rightarrow> (None, s1\<lparr>err := Some e\<rparr>)
           | None \<Rightarrow>
               if length (TrimSpace line) = 0 then
                 ServerSentEventsReader_Next TrimSpace Unmarshal s1
               else
                 let line' = TrimSpace (TrimPrefix line ''data: '') in
                 if line' = ''[DONE]'' then (None, s1)
                 else if \<not> HasPrefix line' ''{'' then
                   ServerSentEventsReader_Next TrimSpace Unmarshal s1
                 else
                   (case Unmarshal line' of
                      Inl e \<Rightarrow> (None, s1\<lparr>err := Some e\<rparr>)
                    | Inr event \<Rightarrow> (Some event, s1))))"
  by pat_completeness auto

termination ServerSentEventsReader_Next
proof (relation "measure (\<lambda>(TrimSpace, Unmarshal, s). length (pending s))")
  have cut: "length rest < length bytes"
    if "readUntil d bytes = Some (line, rest)" for d bytes line rest
    using that by (induction bytes arbitrary: line) (auto split: if_splits option.splits)
  have shrink: "length (pending s1) < length (pending s)"
    if "((line, None), s1) = ReadBytes d s" for d s line s1
    using that by (auto simp: ReadBytes_def split: option.splits dest: cut)
  show "wf (measure (\<lambda>(TrimSpace, Unmarshal, s). length (pending s)))"
    by simp
  show "((TrimSpace, Unmarshal, s1), TrimSpace, Unmarshal, s)
          \<in> measure (\<lambda>(TrimSpace, Unmarshal, s). length (pending s))"
    if "(x, s1) = ReadBytes (CHR 0x0A) s" "(line, y) = x" "y = None"
    for TrimSpace :: "string \<Rightarrow> string" and Unmarshal :: "string \<Rightarrow> error + 'T"
      and s x s1 line y
    using that shrink [of line s1 "CHR 0x0A" s] by simp
  show "((TrimSpace, Unmarshal, s1), TrimSpace, Unmarshal, s)
          \<in> measure (\<lambda>(TrimSpace, Unmarshal, s). length (pending s))"
    if "(x, s1) = ReadBytes (CHR 0x0A) s" "(line, y) = x" "y = None"
    for TrimSpace :: "string \<Rightarrow> string" and Unmarshal :: "string \<Rightarrow> error + 'T"
      and s x s1 line y
    using that shrink [of line s1 "CHR 0x0A" s] by simp
qed

declare ServerSentEventsReader_Next.simps [simp del]

text \<open>
  The events a consumer gets from the reader:
  \<open>for { e, ok := r.Next(); if !ok { break }; ... }\<close>.
\<close>

function ServerSentEventsReader_events ::
  "(string \<Rightarrow> string) \<Rightarrow> (string \<Rightarrow> error + 'T) \<Rightarrow> ServerSentEventsReader
     \<Rightarrow> 'T list" where
  "ServerSentEventsReader_events TrimSpace Unmarshal s =
     (case ServerSentEventsReader_Next TrimSpace Unmarshal s of
        (None, s1) \<Rightarrow> []
      | (Some event, s1) \<Rightarrow> event # ServerSentEventsReader_events TrimSpace Unmarshal s1)"
  by pat_completeness auto
termination
proof (relation "measure (\<lambda>(TrimSpace, Unmarshal, s). length (pending s))")
  have cut: "length rest < length bytes"
    if "readUntil d bytes = Some (line, rest)" for d bytes line rest
    using that by (induction bytes arbitrary: line) (auto split: if_splits option.splits)
  have shrink: "length (pending s1) < length (pending s)"
    if "ReadBytes d s = ((line, None), s1)" for d s line s1
    using that by (auto simp: ReadBytes_def split: option.splits dest: cut)
  have consumed: "length (pending s1) < length (pending s)"
    if "ServerSentEventsReader_Next TrimSpace Unmarshal s = (Some event, s1)"
    for TrimSpace :: "string \<Rightarrow> string" and Unmarshal :: "string \<Rightarrow> error + 'T"
      and s event s1
    using that
  proof (induction TrimSpace Unmarshal s rule: ServerSentEventsReader_Next.induct)
    case (1 TrimSpace Unmarshal s)
    obtain line e s' where rb: "ReadBytes (CHR 0x0A) s = ((line, e), s')"
      by (metis surj_pair)
    show ?case
    proof (cases e)
      case (Some a)
      with rb "1.prems" show ?thesis
        by (simp add: ServerSentEventsReader_Next.simps [of _ _ s] split: if_splits)
    next
      case None
      note sh = shrink [OF rb [unfolded None]]
      from rb None "1.prems" "1.IH" [of "(line, e)" s' line e] sh show ?thesis
        by (auto simp: ServerSentEventsReader_Next.simps [of _ _ s] Let_def
                 split: if_splits option.splits sum.splits)
    qed
  qed
  show "wf (measure (\<lambda>(TrimSpace, Unmarshal, s). length (pending s)))"
    by simp
  show "((TrimSpace, Unmarshal, s1), TrimSpace, Unmarshal, s)
          \<in> measure (\<lambda>(TrimSpace, Unmarshal, s). length (pending s))"
    if "(x, s1) = ServerSentEventsReader_Next TrimSpace Unmarshal s" "x = Some event"
    for TrimSpace :: "string \<Rightarrow> string" and Unmarshal :: "string \<Rightarrow> error + 'T"
      and s x s1 event
    using that consumed [of TrimSpace Unmarshal s event s1] by simp
qed

declare ServerSentEventsReader_events.simps [simp del]

section \<open>The stream iterator\<close>

text \<open>\<open>strings.Contains\<close>: \<open>substr\<close> occurs somewhere within \<open>s\<close>.\<close>

fun Contains :: "string \<Rightarrow> string \<Rightarrow> bool" where
  "Contains [] substr = (substr = [])"
| "Contains (c # cs) substr = (HasPrefix (c # cs) substr \<or> Contains cs substr)"

text \<open>
  The iterator reads from its own \<open>ServerSentEventsReader[Event]\<close>. \<open>closeOnce\<close> tells
  whether the \<open>sync.Once\<close> guarding \<open>body.Close()\<close> has fired.
\<close>

record StreamIterator =
  reader :: ServerSentEventsReader
  closeOnce :: bool
  err :: "error option"
  currentEvent :: "Event option"
  prefill :: string
  prefillClosingTag :: string

definition StreamIterator_Close :: "StreamIterator \<Rightarrow> StreamIterator" where
  "StreamIterator_Close s = s\<lparr>closeOnce := True\<rparr>"

definition StreamIterator_Err :: "StreamIterator \<Rightarrow> error option" where
  "StreamIterator_Err s = StreamIterator.err s"

definition StreamIterator_Event :: "StreamIterator \<Rightarrow> Event option" where
  "StreamIterator_Event s = currentEvent s"

text \<open>
  \<open>processEvent\<close> returns the event to surface (\<open>None\<close> is the nil pointer) and the
  iterator, whose pending prefill it may clear.
\<close>

definition processEvent :: "StreamIterator \<Rightarrow> Event \<Rightarrow> Event option \<times> StreamIterator" where
  "processEvent s event =
     (if Event.Type event = [] then (None, s)
      else if prefill s \<noteq> [] \<and> Event.Type event = EventTypeContentBlockStart then
        (case ContentBlock event of
           None \<Rightarrow> (Some event, s)
         | Some cb \<Rightarrow>
             if EventContentBlock.Type cb = ContentTypeText then
               if prefillClosingTag s = []
                  \<or> Contains (EventContentBlock.Text cb) (prefillClosingTag s) then
                 (Some (event\<lparr>ContentBlock :=
                          Some (cb\<lparr>EventContentBlock.Text :=
                                      prefill s @ EventContentBlock.Text cb\<rparr>)\<rparr>),
                  s\<lparr>prefill := []\<rparr>)
               else (Some event, s)
             else (Some event, s))
      else (Some event, s))"

text \<open>\<open>Next\<close> of the iterator: the flag returned, and the iterator after the call.\<close>

function StreamIterator_Next ::
  "(string \<Rightarrow> string) \<Rightarrow> (string \<Rightarrow> error + Event) \<Rightarrow> StreamIterator
     \<Rightarrow> bool \<times> StreamIterator" where
  "StreamIterator_Next TrimSpace Unmarshal s =
     (case ServerSentEventsReader_Next TrimSpace Unmarshal (reader s) of
        (None, rd) \<Rightarrow>
          (False,
           StreamIterator_Close
             (s\<lparr>reader := rd, StreamIterator.err := ServerSentEventsReader_Err rd\<rparr>))
      | (Some event, rd) \<Rightarrow>
          (case processEvent (s\<lparr>reader := rd\<rparr>) event of
             (None, s') \<Rightarrow> StreamIterator_Next TrimSpace Unmarshal s'
           | (Some processedEvent, s') \<Rightarrow>
               (True, s'\<lparr>currentEvent := Some processedEvent\<rparr>)))"
  by pat_completeness auto
termination
proof (relation "measure (\<lambda>(TrimSpace, Unmarshal, s).
          length (ServerSentEventsReader_events TrimSpace Unmarshal (reader s)))")
  show "wf (measure (\<lambda>(TrimSpace, Unmarshal, s).
          length (ServerSentEventsReader_events TrimSpace Unmarshal (reader s))))"
    by simp
  show "((TrimSpace, Unmarshal, s'), TrimSpace, Unmarshal, s)
          \<in> measure (\<lambda>(TrimSpace, Unmarshal, s).
                length (ServerSentEventsReader_events TrimSpace Unmarshal (reader s)))"
    if "(x, rd) = ServerSentEventsReader_Next TrimSpace Unmarshal (reader s)"
      "x = Some event" "(y, s') = processEvent (s\<lparr>reader := rd\<rparr>) event"
    for TrimSpace Unmarshal s x rd event y s'
  proof -
    have "reader s' = rd"
      using that(3) by (auto simp: processEvent_def split: if_splits option.splits)
    moreover have "ServerSentEventsReader_Next TrimSpace Unmarshal (reader s) = (Some event, rd)"
      using that(1,2) by simp
    ultimately show ?thesis
      by (simp add: ServerSentEventsReader_events.simps [of _ _ "reader s"] split: prod.splits)
  qed
qed

declare StreamIterator_Next.simps [simp del]

text \<open>
  The consumer's loop \<open>for it.Next() { ... it.Event() ... }\<close>: the events surfaced, in
  order.
\<close>

function StreamIterator_events ::
  "(string \<Rightarrow> string) \<Rightarrow> (string \<Rightarrow> error + Event) \<Rightarrow> StreamIterator
     \<Rightarrow> Event option list" where
  "StreamIterator_events TrimSpace Unmarshal s =
     (case StreamIterator_Next TrimSpace Unmarshal s of
        (False, s1) \<Rightarrow> []
      | (True, s1) \<Rightarrow>
          StreamIterator_Event s1 # StreamIterator_events TrimSpace Unmarshal s1)"
  by pat_completeness auto
termination
proof (relation "measure (\<lambda>(TrimSpace, Unmarshal, s).
          length (ServerSentEventsReader_events TrimSpace Unmarshal (reader s)))")
  have fewer: "length (ServerSentEventsReader_events TrimSpace Unmarshal (reader s1))
                 < length (ServerSentEventsReader_events TrimSpace Unmarshal (reader s))"
    if "StreamIterator_Next TrimSpace Unmarshal s = (True, s1)"
    for TrimSpace Unmarshal s s1
    using that
  proof (induction TrimSpace Unmarshal s rule: StreamIterator_Next.induct)
    case (1 TrimSpace Unmarshal s)
    obtain x rd where nx: "ServerSentEventsReader_Next TrimSpace Unmarshal (reader s) = (x, rd)"
      by (metis surj_pair)
    show ?case
    proof (cases x)
      case None
      with nx "1.prems" show ?thesis
        by (simp add: StreamIterator_Next.simps [of _ _ s])
    next
      case (Some event)
      obtain y s' where pe: "processEvent (s\<lparr>reader := rd\<rparr>) event = (y, s')"
        by (metis surj_pair)
      have rd: "reader s' = rd"
        using pe by (auto simp: processEvent_def split: if_splits option.splits)
      have all: "ServerSentEventsReader_events TrimSpace Unmarshal (reader s)
                   = event # ServerSentEventsReader_events TrimSpace Unmarshal rd"
        using nx Some
        by (simp add: ServerSentEventsReader_events.simps [of _ _ "reader s"] split: prod.splits)
      show ?thesis
      proof (cases y)
        case None
        have "StreamIterator_Next TrimSpace Unmarshal s' = (True, s1)"
          using "1.prems" nx Some pe None by (simp add: StreamIterator_Next.simps [of _ _ s])
        from "1.IH" [OF nx [symmetric] Some pe [symmetric] None this] rd all
        show ?thesis by simp
      next
        case (Some processedEvent)
        have "s1 = s'\<lparr>currentEvent := Some processedEvent\<rparr>"
          using "1.prems" nx \<open>x = Some event\<close> pe Some
          by (simp add: StreamIterator_Next.simps [of _ _ s])
        then show ?thesis using rd all by simp
      qed
    qed
  qed
  show "wf (measure (\<lambda>(TrimSpace, Unmarshal, s).
          length (ServerSentEventsReader_events TrimSpace Unmarshal (reader s))))"
    by simp
  show "((TrimSpace, Unmarshal, s1), TrimSpace, Unmarshal, s)
          \<in> measure (\<lambda>(TrimSpace, Unmarshal, s).
                length (ServerSentEventsReader_events TrimSpace Unmarshal (reader s)))"
    if "(x, s1) = StreamIterator_Next TrimSpace Unmarshal s" "x = True"
    for TrimSpace Unmarshal s x s1
    using that fewer [of TrimSpace Unmarshal s s1] by simp
qed

declare StreamIterator_events.simps [simp del]

section \<open>Reordering of message content (util.go)\<close>

text \<open>
  The inner loop of \<open>reorderMessageContent\<close>: each block is appended to
  \<open>toolUseBlocks\<close> or to \<open>otherBlocks\<close>.
\<close>

fun separate :: "Content list \<Rightarrow> Content list \<Rightarrow> Content list \<Rightarrow> Content list \<times> Content list" where
  "separate [] toolUseBlocks otherBlocks = (toolUseBlocks, otherBlocks)"
| "separate (block # blocks) toolUseBlocks otherBlocks =
     (if Content_Type block = ContentTypeToolUse
      then separate blocks (toolUseBlocks @ [block]) otherBlocks
      else separate blocks toolUseBlocks (otherBlocks @ [block]))"

text \<open>The body of the outer loop, for one message.\<close>

definition reorderMessage :: "Message \<Rightarrow> Message" where
  "reorderMessage msg =
     (if Message.Role msg \<noteq> Assistant \<or> length (Message.Content msg) < 2 then msg
      else
        (case separate (Message.Content msg) [] [] of
           (toolUseBlocks, otherBlocks) \<Rightarrow>
             if length toolUseBlocks > 0 \<and> length otherBlocks > 0
             then msg\<lparr>Message.Content := otherBlocks @ toolUseBlocks\<rparr>
             else msg))"

text \<open>
  \<open>reorderMessageContent\<close> rewrites the messages in place through their pointers; the
  model returns the messages as the call leaves them.
\<close>

definition reorderMessageContent :: "Message list \<Rightarrow> Message list" where
  "reorderMessageContent messages = map reorderMessage messages"

section \<open>Reference notions used to state the properties\<close>

text \<open>The block that a \<open>content_block_start\<close> event starts.\<close>

definition blockOf :: "Event \<Rightarrow> Content option" where
  "blockOf e = (case ContentBlock e of None \<Rightarrow> None | Some cb \<Rightarrow> startContent cb)"

text \<open>A block after one accepted \<open>content_block_delta\<close> event addressed to it.\<close>

definition applyDelta :: "Content option \<Rightarrow> Event \<Rightarrow> Content option" where
  "applyDelta c e =
     (case Delta e of
        None \<Rightarrow> c
      | Some d \<Rightarrow> (case mergeDelta d c of Inl _ \<Rightarrow> c | Inr c' \<Rightarrow> c'))"

text \<open>
  The started block of index \<open>i\<close>: what the last start event for \<open>i\<close> started, with
  the deltas addressed to \<open>i\<close> merged in their order of arrival.
\<close>

definition started_block :: "Event list \<Rightarrow> Event list \<Rightarrow> int \<Rightarrow> Content option" where
  "started_block starts deltas i =
     foldl applyDelta (blockOf (last (filter (\<lambda>e. Event.Index e = Some i) starts)))
       (filter (\<lambda>e. Event.Index e = Some i) deltas)"

text \<open>A tool-use block is a value of the concrete type \<open>ToolUseContent\<close>.\<close>

fun isToolUse :: "Content \<Rightarrow> bool" where
  "isToolUse (ToolUseContent _ _ _) = True"
| "isToolUse _ = False"

text \<open>
  The reordering as the specification words it: all blocks that are not tool-use blocks,
  in their order, followed by all tool-use blocks, in their order.
\<close>

definition toolUseLast :: "Content list \<Rightarrow> Content list" where
  "toolUseLast blocks = filter (\<lambda>b. \<not> isToolUse b) blocks @ filter isToolUse blocks"

text \<open>
  A line of the stream as \<open>ReadBytes\<close> delivers it: it ends with the newline and holds
  no other.
\<close>

definition is_line :: "string \<Rightarrow> bool" where
  "is_line l = (l \<noteq> [] \<and> last l = CHR 0x0A \<and> CHR 0x0A \<notin> set (butlast l))"

text \<open>The reader's callback, if it has one, raises no error on the line.\<close>

definition callback_passes :: "ServerSentEventsReader \<Rightarrow> string \<Rightarrow> bool" where
  "callback_passes s l = (case sseCallback s of None \<Rightarrow> True | Some callback \<Rightarrow> callback l = None)"

text \<open>What is left of a line once the optional \<open>data: \<close> prefix and the white space are stripped.\<close>

definition line_payload :: "(string \<Rightarrow> string) \<Rightarrow> string \<Rightarrow> string" where
  "line_payload TrimSpace l = TrimSpace (TrimPrefix l ''data: '')"

text \<open>
  Protocol noise: a blank line, or a line whose line_payload is not the terminator and does
  not start with an opening brace.
\<close>

definition noise :: "(string \<Rightarrow> string) \<Rightarrow> string \<Rightarrow> bool" where
  "noise TrimSpace l =
     (TrimSpace l = []
      \<or> (line_payload TrimSpace l \<noteq> ''[DONE]'' \<and> \<not> HasPrefix (line_payload TrimSpace l) ''{''))"

text \<open>
  What the lines of a stream decode to, line by line: noise is passed over, the
  terminator and a line that fails to decode end the sequence.
\<close>

fun events_of_lines :: "(string \<Rightarrow> string) \<Rightarrow> (string \<Rightarrow> error + 'T) \<Rightarrow> string list \<Rightarrow> 'T list" where
  "events_of_lines TrimSpace Unmarshal [] = []"
| "events_of_lines TrimSpace Unmarshal (l # ls) =
     (if TrimSpace l = [] then events_of_lines TrimSpace Unmarshal ls
      else if line_payload TrimSpace l = ''[DONE]'' then []
      else if \<not> HasPrefix (line_payload TrimSpace l) ''{'' then
        events_of_lines TrimSpace Unmarshal ls
      else (case Unmarshal (line_payload TrimSpace l) of
              Inl e \<Rightarrow> []
            | Inr event \<Rightarrow> event # events_of_lines TrimSpace Unmarshal ls))"

text \<open>A \<open>content_block_start\<close> event whose block is a text block, and the text it carries.\<close>

definition is_text_start :: "Event \<Rightarrow> bool" where
  "is_text_start e =
     (Event.Type e = EventTypeContentBlockStart
      \<and> (case ContentBlock e of
            None \<Rightarrow> False
          | Some cb \<Rightarrow> EventContentBlock.Type cb = ContentTypeText))"

definition start_text :: "Event \<Rightarrow> string" where
  "start_text e = (case ContentBlock e of None \<Rightarrow> [] | Some cb \<Rightarrow> EventContentBlock.Text cb)"

text \<open>The event with the prefill put in front of the text of its block.\<close>

definition with_prefill :: "string \<Rightarrow> Event \<Rightarrow> Event" where
  "with_prefill p e =
     e\<lparr>ContentBlock :=
         map_option (\<lambda>cb. cb\<lparr>EventContentBlock.Text := p @ EventContentBlock.Text cb\<rparr>)
           (ContentBlock e)\<rparr>"

text \<open>
  The events that reach the consumer when the reader yields \<open>events\<close>: each goes through
  \<open>processEvent\<close>, in order, and a nil result is passed over.
\<close>

fun processEvents :: "StreamIterator \<Rightarrow> Event list \<Rightarrow> Event list" where
  "processEvents s [] = []"
| "processEvents s (event # events) =
     (case processEvent s event of
        (None, s') \<Rightarrow> processEvents s' events
      | (Some processedEvent, s') \<Rightarrow> processedEvent # processEvents s' events)"

section \<open>Concrete inputs\<close>

definition bare_event :: "EventType \<Rightarrow> Event" where
  "bare_event t =
     \<lparr>Event.Type = t, Index = None, Message = None, ContentBlock = None, Delta = None,
      Usage = None\<rparr>"

definition bare_delta :: "EventDeltaType \<Rightarrow> EventDelta" where
  "bare_delta t =
     \<lparr>EventDelta.Type = t, EventDelta.Text = [], EventDelta.Index = 0, StopReason = [],
      StopSequence = [], PartialJSON = [], Thinking = [], Signature = []\<rparr>"

definition bare_block :: "ContentType \<Rightarrow> EventContentBlock" where
  "bare_block t =
     \<lparr>EventContentBlock.Type = t, EventContentBlock.Text = [], EventContentBlock.ID = [],
      Name = [], Input = [], EventContentBlock.Thinking = [], EventContentBlock.Signature = []\<rparr>"

definition usage4 :: "go_int \<Rightarrow> go_int \<Rightarrow> go_int \<Rightarrow> go_int \<Rightarrow> Usage" where
  "usage4 a b c d =
     \<lparr>InputTokens = a, OutputTokens = b, CacheCreationInputTokens = c,
      CacheReadInputTokens = d\<rparr>"

definition snapshot :: Response where
  "snapshot =
     \<lparr>Response.ID = ''m1'', Model = ''claude'', Response.Role = Assistant,
      Response.Content = [], Response.StopReason = [], Response.StopSequence = None,
      Response.Type = ''message'', Response.Usage = usage4 0 0 0 0\<rparr>"

definition message_start_event :: Event where
  "message_start_event = (bare_event EventTypeMessageStart)\<lparr>Message := Some snapshot\<rparr>"

definition text_start :: "int \<Rightarrow> string \<Rightarrow> Event" where
  "text_start i t =
     (bare_event EventTypeContentBlockStart)
       \<lparr>Event.Index := Some i,
        ContentBlock := Some ((bare_block ContentTypeText)\<lparr>EventContentBlock.Text := t\<rparr>)\<rparr>"

definition tool_start :: "int \<Rightarrow> string \<Rightarrow> string \<Rightarrow> Event" where
  "tool_start i ident name =
     (bare_event EventTypeContentBlockStart)
       \<lparr>Event.Index := Some i,
        ContentBlock := Some ((bare_block ContentTypeToolUse)
                                \<lparr>EventContentBlock.ID := ident, Name := name\<rparr>)\<rparr>"

definition delta_event :: "int \<Rightarrow> EventDeltaType \<Rightarrow> string \<Rightarrow> Event" where
  "delta_event i t payload =
     (bare_event EventTypeContentBlockDelta)
       \<lparr>Event.Index := Some i,
        Delta := Some ((bare_delta t)\<lparr>EventDelta.Text := payload, PartialJSON := payload\<rparr>)\<rparr>"

definition hello_accumulator :: ResponseAccumulator where
  "hello_accumulator =
     \<lparr>response = Some snapshot, contentBlocks = [(0, Some (TextContent ''Hello'' None []))],
      complete = False\<rparr>"

definition assistant_mixed :: Message where
  "assistant_mixed =
     \<lparr>Message.ID = [], Message.Role = Assistant,
      Message.Content =
        [ToolUseContent ''tool1'' ''test_tool'' [], TextContent ''Here is the result:'' None [],
         ToolUseContent ''tool2'' ''test_tool2'' [], TextContent ''Additional text'' None []]\<rparr>"

definition user_mixed :: Message where
  "user_mixed =
     \<lparr>Message.ID = [], Message.Role = User,
      Message.Content =
        [ToolUseContent ''tool1'' ''test_tool'' [], TextContent ''Hello'' None []]\<rparr>"

text \<open>
  Stand-ins for the two library functions on the inputs of the examples: white space
  trimmed as \<open>bytes.TrimSpace\<close> does on ASCII text, and a decoder that knows a few
  payloads and rejects all others.
\<close>

definition asciiSpace :: "char \<Rightarrow> bool" where
  "asciiSpace c = (c \<in> set [CHR 0x09, CHR 0x0A, CHR 0x0B, CHR 0x0C, CHR 0x0D, CHR 0x20])"

definition asciiTrimSpace :: "string \<Rightarrow> string" where
  "asciiTrimSpace s = rev (dropWhile asciiSpace (rev (dropWhile asciiSpace s)))"

definition decodeExample :: "string \<Rightarrow> error + Event" where
  "decodeExample bytes =
     (if bytes = ''{}'' then Inr (bare_event [])
      else if bytes = ''{ping}'' then Inr (bare_event EventTypePing)
      else if bytes = ''{text 0}'' then Inr (text_start 0 ''abc'')
      else if bytes = ''{text 1}'' then Inr (text_start 1 ''x</r>y'')
      else if bytes = ''{tool 2}'' then Inr (tool_start 2 ''t1'' ''get'')
      else Inl (Error ''invalid character''))"

definition example_reader :: "string \<Rightarrow> ServerSentEventsReader" where
  "example_reader stream = NewServerSentEventsReader stream EOF"

definition example_iterator :: "string \<Rightarrow> string \<Rightarrow> string \<Rightarrow> StreamIterator" where
  "example_iterator p tag stream =
     \<lparr>reader = example_reader stream, closeOnce = False, StreamIterator.err = None,
      currentEvent = None, prefill = p, prefillClosingTag = tag\<rparr>"

definition example_lines_no_text :: "string list" where
  "example_lines_no_text =
     [''event: ping\<newline>'', ''data: {ping}\<newline>'', ''data: {tool 2}\<newline>'']"

definition example_lines :: "string list" where
  "example_lines =
     [''data: {ping}\<newline>'', ''data: {}\<newline>'', ''data: {tool 2}\<newline>'', ''\<newline>'',
      ''data: {text 0}\<newline>'', ''data: {text 1}\<newline>'', ''data: [DONE]\<newline>'']"

text \<open>
  A stream as the provider sends it: the text block starts empty and its text arrives in
  deltas. The decoder knows the two payloads.
\<close>

definition decodeDeltaExample :: "string \<Rightarrow> error + Event" where
  "decodeDeltaExample bytes =
     (if bytes = ''{start}'' then Inr (text_start 0 [])
      else if bytes = ''{delta}'' then Inr (delta_event 0 EventDeltaTypeText ''<r>x</r>y'')
      else Inl (Error ''invalid character''))"

definition delta_lines :: "string list" where
  "delta_lines = [''data: {start}\<newline>'', ''data: {delta}\<newline>'', ''data: [DONE]\<newline>'']"

lemmas EventType_defs =
  EventTypePing_def EventTypeMessageStart_def EventTypeMessageDelta_def
  EventTypeMessageStop_def EventTypeContentBlockStart_def EventTypeContentBlockDelta_def
  EventTypeContentBlockStop_def

lemmas EventDeltaType_defs =
  EventDeltaTypeText_def EventDeltaTypeInputJSON_def EventDeltaTypeThinking_def
  EventDeltaTypeSignature_def EventDeltaTypeCitations_def

lemmas example_defs =
  bare_event_def bare_delta_def bare_block_def usage4_def snapshot_def
  message_start_event_def text_start_def tool_start_def delta_event_def
  hello_accumulator_def

section \<open>Properties of the accumulator\<close>

lemma updateUsage_response:
  assumes "response r = Some resp"
  shows "updateUsage r event =
     (None, r\<lparr>response := Some (resp\<lparr>Response.Usage :=
        (case Event.Usage event of None \<Rightarrow> Response.Usage resp
         | Some u \<Rightarrow> addUsage (Response.Usage resp) u)\<rparr>)\<rparr>)"
  using assms by (auto simp: updateUsage_def split: option.splits)

lemma AddEvents_append_ok:
  assumes "fst (AddEvents r (xs @ ys)) = None"
  shows "\<exists>r'. AddEvents r xs = (None, r') \<and> AddEvents r' ys = AddEvents r (xs @ ys)"
  using assms
  by (induction xs arbitrary: r) (auto split: prod.splits option.splits)

lemma AddEvent_start_step:
  assumes "Event.Type e = EventTypeContentBlockStart" "Event.Index e = Some i"
    "AddEvent r e = (None, r')"
  shows "response r' \<noteq> None \<and> contentBlocks r' = AList.update i (blockOf e) (contentBlocks r)"
  using assms
  by (auto simp: AddEvent_def EventType_defs blockOf_def updateUsage_response
           split: option.splits if_splits)

lemma AddEvents_starts:
  assumes "\<forall>e\<in>set starts. Event.Type e = EventTypeContentBlockStart \<and> Event.Index e \<noteq> None"
    "AddEvents r starts = (None, r')" "response r \<noteq> None"
  shows "response r' \<noteq> None \<and>
     (\<forall>i. map_of (contentBlocks r') i =
        (if filter (\<lambda>e. Event.Index e = Some i) starts = [] then map_of (contentBlocks r) i
         else Some (blockOf (last (filter (\<lambda>e. Event.Index e = Some i) starts)))))"
  using assms
proof (induction starts arbitrary: r)
  case Nil
  then show ?case by simp
next
  case (Cons e es)
  from Cons.prems(2) obtain r1 where r1: "AddEvent r e = (None, r1)" "AddEvents r1 es = (None, r')"
    by (auto split: prod.splits option.splits)
  from Cons.prems(1) obtain j
    where j: "Event.Type e = EventTypeContentBlockStart" "Event.Index e = Some j"
    by auto
  from AddEvent_start_step [OF j r1(1)]
  have s: "response r1 \<noteq> None" "contentBlocks r1 = AList.update j (blockOf e) (contentBlocks r)"
    by auto
  from Cons.IH [OF _ r1(2) s(1)] Cons.prems(1)
  have ih: "response r' \<noteq> None"
    "\<And>i. map_of (contentBlocks r') i =
        (if filter (\<lambda>e. Event.Index e = Some i) es = [] then map_of (contentBlocks r1) i
         else Some (blockOf (last (filter (\<lambda>e. Event.Index e = Some i) es))))"
    by auto
  show ?case using ih j(2) s(2) by (auto simp: update_conv')
qed

lemma AddEvent_delta_step:
  assumes "Event.Type e = EventTypeContentBlockDelta" "AddEvent r e = (None, r')"
  shows "\<exists>i c. Event.Index e = Some i \<and> map_of (contentBlocks r) i = Some c \<and> response r' \<noteq> None
     \<and> contentBlocks r' = AList.update i (applyDelta c e) (contentBlocks r)"
  using assms
  by (auto simp: AddEvent_def EventType_defs applyDelta_def updateUsage_response
           split: option.splits if_splits sum.splits)

lemma AddEvents_deltas:
  assumes "\<forall>e\<in>set deltas. Event.Type e = EventTypeContentBlockDelta"
    "AddEvents r deltas = (None, r')" "response r \<noteq> None"
  shows "response r' \<noteq> None \<and>
     (\<forall>i. map_of (contentBlocks r') i =
        map_option (\<lambda>c. foldl applyDelta c (filter (\<lambda>e. Event.Index e = Some i) deltas))
          (map_of (contentBlocks r) i))"
  using assms
proof (induction deltas arbitrary: r)
  case Nil
  then show ?case by (simp add: option.map_ident)
next
  case (Cons e es)
  from Cons.prems(2) obtain r1 where r1: "AddEvent r e = (None, r1)" "AddEvents r1 es = (None, r')"
    by (auto split: prod.splits option.splits)
  from AddEvent_delta_step [OF _ r1(1)] Cons.prems(1)
  obtain j c where s: "Event.Index e = Some j" "map_of (contentBlocks r) j = Some c"
     "response r1 \<noteq> None"
     "contentBlocks r1 = AList.update j (applyDelta c e) (contentBlocks r)"
    by auto
  from Cons.IH [OF _ r1(2) s(3)] Cons.prems(1)
  have ih: "response r' \<noteq> None"
    "\<And>i. map_of (contentBlocks r') i =
        map_option (\<lambda>c. foldl applyDelta c (filter (\<lambda>e. Event.Index e = Some i) es))
          (map_of (contentBlocks r1) i)"
    by auto
  show ?case using ih s by (auto simp: update_conv')
qed

lemma AddEvent_stop:
  assumes "Event.Type e = EventTypeMessageStop" "response r = Some resp"
  shows "\<exists>resp'. AddEvent r e = (None, r\<lparr>complete := True, response := Some resp'\<rparr>) \<and>
     Response.Content resp' =
       (if contentBlocks r = [] then Response.Content resp
        else map (\<lambda>i. case map_of (contentBlocks r) i of None \<Rightarrow> None | Some c \<Rightarrow> c)
               (sort (remdups (map fst (contentBlocks r)))))"
  using assms
  by (cases "contentBlocks r")
     (auto simp: AddEvent_def EventType_defs finalizeContent_def len_def Let_def
                 updateUsage_response)

lemma set_map_filter: "set (List.map_filter f xs) = {y. \<exists>x\<in>set xs. f x = Some y}"
  by (induction xs) (auto split: option.splits)

text \<open>
  Claim C1. After \<open>message_start\<close>, any \<open>content_block_start\<close> events with explicit
  indices (in any order of arrival, at least one), then \<open>content_block_delta\<close> events,
  then \<open>message_stop\<close>, all accepted: the content of the response is the list of the
  started blocks, one for each index that was started, in ascending order of the indices.
  There is one entry per started index and none for an index in between that was never
  started.
\<close>

theorem finalized_content_in_ascending_index_order:
  assumes "Event.Type start = EventTypeMessageStart"
    and "\<forall>e\<in>set starts. Event.Type e = EventTypeContentBlockStart \<and> Event.Index e \<noteq> None"
    and "starts \<noteq> []"
    and "\<forall>e\<in>set deltas. Event.Type e = EventTypeContentBlockDelta"
    and "Event.Type stop = EventTypeMessageStop"
    and "fst (AddEvents NewResponseAccumulator (start # starts @ deltas @ [stop])) = None"
  shows "\<exists>resp.
      response (snd (AddEvents NewResponseAccumulator (start # starts @ deltas @ [stop])))
        = Some resp
    \<and> Response.Content resp =
        map (started_block starts deltas) (sort (remdups (List.map_filter Event.Index starts)))
    \<and> length (Response.Content resp) = card (set (List.map_filter Event.Index starts))
    \<and> IsComplete (snd (AddEvents NewResponseAccumulator (start # starts @ deltas @ [stop])))"
proof -
  let ?run = "AddEvents NewResponseAccumulator (start # starts @ deltas @ [stop])"
  have run0: "fst (AddEvents NewResponseAccumulator ([start] @ starts @ deltas @ [stop])) = None"
    using assms(6) by simp
  from AddEvents_append_ok [OF run0]
  obtain r0 where r0: "AddEvents NewResponseAccumulator [start] = (None, r0)"
    and rest: "AddEvents r0 (starts @ deltas @ [stop]) = ?run"
    by auto
  have c0: "contentBlocks r0 = []" "response r0 \<noteq> None"
    using r0 assms(1)
    by (auto simp: AddEvent_def NewResponseAccumulator_def split: option.splits prod.splits)
  have run1: "fst (AddEvents r0 (starts @ deltas @ [stop])) = None"
    using rest assms(6) by simp
  from AddEvents_append_ok [OF run1]
  obtain r1 where r1: "AddEvents r0 starts = (None, r1)"
    and rest1: "AddEvents r1 (deltas @ [stop]) = ?run"
    using rest by auto
  have run2: "fst (AddEvents r1 (deltas @ [stop])) = None"
    using rest1 assms(6) by simp
  from AddEvents_append_ok [OF run2]
  obtain r2 where r2: "AddEvents r1 deltas = (None, r2)"
    and rest2': "AddEvents r2 [stop] = ?run"
    using rest1 by auto
  have rest2: "AddEvent r2 stop = ?run"
    using rest2' assms(6) by (auto split: prod.splits option.splits)
  from AddEvents_starts [OF assms(2) r1 c0(2)] c0(1)
  have m1: "response r1 \<noteq> None"
    "\<And>i. map_of (contentBlocks r1) i =
        (if filter (\<lambda>e. Event.Index e = Some i) starts = [] then None
         else Some (blockOf (last (filter (\<lambda>e. Event.Index e = Some i) starts))))"
    by auto
  from AddEvents_deltas [OF assms(4) r2 m1(1)]
  have m2: "response r2 \<noteq> None"
    "\<And>i. map_of (contentBlocks r2) i =
        map_option (\<lambda>c. foldl applyDelta c (filter (\<lambda>e. Event.Index e = Some i) deltas))
          (map_of (contentBlocks r1) i)"
    by auto
  have m: "\<And>i. map_of (contentBlocks r2) i =
      (if filter (\<lambda>e. Event.Index e = Some i) starts = [] then None
       else Some (started_block starts deltas i))"
    by (simp add: m2(2) m1(2) started_block_def)
  have keys: "set (map fst (contentBlocks r2)) = set (List.map_filter Event.Index starts)"
  proof -
    have "set (map fst (contentBlocks r2)) = dom (map_of (contentBlocks r2))"
      by (simp add: dom_map_of_conv_image_fst)
    also have "\<dots> = {i. filter (\<lambda>e. Event.Index e = Some i) starts \<noteq> []}"
      by (auto simp: m dom_def)
    also have "\<dots> = set (List.map_filter Event.Index starts)"
      by (auto simp: filter_empty_conv set_map_filter)
    finally show ?thesis .
  qed
  have ne: "contentBlocks r2 \<noteq> []"
  proof -
    from assms(2,3) obtain e j where "e \<in> set starts" "Event.Index e = Some j"
      by (cases starts) auto
    then have "j \<in> set (List.map_filter Event.Index starts)"
      by (auto simp: set_map_filter)
    then show ?thesis using keys by auto
  qed
  have srt: "sort (remdups (map fst (contentBlocks r2)))
               = sort (remdups (List.map_filter Event.Index starts))"
    using keys by (metis sorted_list_of_set_sort_remdups)
  obtain resp2 where resp2: "response r2 = Some resp2" using m2(1) by auto
  from AddEvent_stop [OF assms(5) resp2] ne
  obtain resp' where fin: "AddEvent r2 stop = (None, r2\<lparr>complete := True, response := Some resp'\<rparr>)"
    "Response.Content resp' =
       map (\<lambda>i. case map_of (contentBlocks r2) i of None \<Rightarrow> None | Some c \<Rightarrow> c)
         (sort (remdups (map fst (contentBlocks r2))))"
    by auto
  have "Response.Content resp' =
          map (started_block starts deltas) (sort (remdups (List.map_filter Event.Index starts)))"
    unfolding fin(2) srt
    by (rule map_cong [OF refl]) (auto simp: m set_map_filter filter_empty_conv)
  then show ?thesis
    using fin(1) rest2 by (auto simp: IsComplete_def length_remdups_card_conv)
qed

theorem finalized_content_in_ascending_index_order_witness:
  "fst (AddEvents NewResponseAccumulator
         (message_start_event
          # [tool_start 2 ''t1'' ''get'', text_start 0 ''A'']
          @ [delta_event 0 EventDeltaTypeText ''b'', delta_event 2 EventDeltaTypeInputJSON ''{}'']
          @ [bare_event EventTypeMessageStop])) = None
   \<and> (\<exists>resp.
        response (snd (AddEvents NewResponseAccumulator
         (message_start_event
          # [tool_start 2 ''t1'' ''get'', text_start 0 ''A'']
          @ [delta_event 0 EventDeltaTypeText ''b'', delta_event 2 EventDeltaTypeInputJSON ''{}'']
          @ [bare_event EventTypeMessageStop]))) = Some resp
        \<and> Response.Content resp =
            [Some (TextContent ''Ab'' None []), Some (ToolUseContent ''t1'' ''get'' ''{}'')])"
proof -
  let ?starts = "[tool_start 2 ''t1'' ''get'', text_start 0 ''A'']"
  let ?deltas = "[delta_event 0 EventDeltaTypeText ''b'', delta_event 2 EventDeltaTypeInputJSON ''{}'']"
  let ?stop = "bare_event EventTypeMessageStop"
  have h1: "Event.Type message_start_event = EventTypeMessageStart"
    by (simp add: example_defs)
  have h2: "\<forall>e\<in>set ?starts. Event.Type e = EventTypeContentBlockStart \<and> Event.Index e \<noteq> None"
    by (simp add: example_defs)
  have h3: "?starts \<noteq> []" by simp
  have h4: "\<forall>e\<in>set ?deltas. Event.Type e = EventTypeContentBlockDelta"
    by (simp add: example_defs)
  have h5: "Event.Type ?stop = EventTypeMessageStop"
    by (simp add: example_defs)
  have h6: "fst (AddEvents NewResponseAccumulator
                  (message_start_event # ?starts @ ?deltas @ [?stop])) = None"
    by (simp add: example_defs AddEvent_def NewResponseAccumulator_def startContent_def
          mergeDelta_def updateUsage_def finalizeContent_def len_def EventType_defs
          EventDeltaType_defs ContentTypeText_def ContentTypeToolUse_def)
  have sb: "map (started_block ?starts ?deltas) (sort (remdups (List.map_filter Event.Index ?starts)))
      = [Some (TextContent ''Ab'' None []), Some (ToolUseContent ''t1'' ''get'' ''{}'')]"
    by (simp add: example_defs started_block_def blockOf_def applyDelta_def startContent_def
          mergeDelta_def EventType_defs EventDeltaType_defs ContentTypeText_def
          ContentTypeToolUse_def)
  from finalized_content_in_ascending_index_order [OF h1 h2 h3 h4 h5 h6] h6 sb
  show ?thesis by auto
qed


lemma AddEvent_delta:
  assumes "response r = Some resp" "Event.Type event = EventTypeContentBlockDelta"
    "Event.Index event = Some i" "Delta event = Some delta"
    "map_of (contentBlocks r) i = Some content"
  shows "AddEvent r event =
     (case mergeDelta delta content of
        Inl msg \<Rightarrow> (Some (Error msg), r)
      | Inr content' \<Rightarrow>
          updateUsage (r\<lparr>contentBlocks := AList.update i content' (contentBlocks r)\<rparr>) event)"
  using assms by (simp add: AddEvent_def EventType_defs)

lemma updateUsage_started:
  assumes "response r = Some resp"
  shows "fst (updateUsage r event) = None"
    and "contentBlocks (snd (updateUsage r event)) = contentBlocks r"
  using assms by (auto simp: updateUsage_def split: option.splits)

text \<open>
  Claim C2, as amended. For a started accumulator whose block at the addressed index is a
  text block: a \<open>text_delta\<close> is accepted and appends its text to the text of the block;
  an \<open>input_json_delta\<close>, a \<open>thinking_delta\<close> or a \<open>signature_delta\<close> makes \<open>AddEvent\<close>
  return an error and leaves the accumulator as it was; a delta with any other
  discriminant (\<open>citations_delta\<close>, or one the code does not know) is accepted without
  an error and leaves the blocks as they were.
\<close>

theorem text_block_delta_merge:
  assumes "response r = Some resp" "Event.Type event = EventTypeContentBlockDelta"
    "Event.Index event = Some i" "Delta event = Some delta"
    "map_of (contentBlocks r) i = Some (Some (TextContent text cc cits))"
  shows "(EventDelta.Type delta = EventDeltaTypeText \<longrightarrow>
            fst (AddEvent r event) = None \<and>
            map_of (contentBlocks (snd (AddEvent r event))) i
              = Some (Some (TextContent (text @ EventDelta.Text delta) cc cits)))
       \<and> (EventDelta.Type delta = EventDeltaTypeInputJSON
           \<or> EventDelta.Type delta = EventDeltaTypeThinking
           \<or> EventDelta.Type delta = EventDeltaTypeSignature \<longrightarrow>
            (\<exists>msg. AddEvent r event = (Some (Error msg), r)))
       \<and> (EventDelta.Type delta \<notin> {EventDeltaTypeText, EventDeltaTypeInputJSON,
                                     EventDeltaTypeThinking, EventDeltaTypeSignature} \<longrightarrow>
            fst (AddEvent r event) = None
            \<and> contentBlocks (snd (AddEvent r event)) = contentBlocks r)"
proof (intro conjI impI)
  assume t: "EventDelta.Type delta = EventDeltaTypeText"
  have m: "mergeDelta delta (Some (TextContent text cc cits))
             = Inr (Some (TextContent (text @ EventDelta.Text delta) cc cits))"
    using t by (simp add: mergeDelta_def)
  show "fst (AddEvent r event) = None"
    using assms m by (simp add: AddEvent_delta updateUsage_started)
  show "map_of (contentBlocks (snd (AddEvent r event))) i
              = Some (Some (TextContent (text @ EventDelta.Text delta) cc cits))"
    using assms m by (simp add: AddEvent_delta updateUsage_started update_conv')
next
  assume t: "EventDelta.Type delta = EventDeltaTypeInputJSON
           \<or> EventDelta.Type delta = EventDeltaTypeThinking
           \<or> EventDelta.Type delta = EventDeltaTypeSignature"
  then have "\<exists>msg. mergeDelta delta (Some (TextContent text cc cits)) = Inl msg"
    by (auto simp: mergeDelta_def EventDeltaType_defs)
  then show "\<exists>msg. AddEvent r event = (Some (Error msg), r)"
    using assms by (auto simp: AddEvent_delta)
next
  assume t: "EventDelta.Type delta \<notin> {EventDeltaTypeText, EventDeltaTypeInputJSON,
                                     EventDeltaTypeThinking, EventDeltaTypeSignature}"
  then have m: "mergeDelta delta (Some (TextContent text cc cits))
                  = Inr (Some (TextContent text cc cits))"
    by (simp add: mergeDelta_def)
  show "fst (AddEvent r event) = None"
    using assms m by (simp add: AddEvent_delta updateUsage_started)
  show "contentBlocks (snd (AddEvent r event)) = contentBlocks r"
    using assms m by (simp add: AddEvent_delta updateUsage_started update_triv)
qed

theorem text_block_delta_merge_witness:
  "fst (AddEvent hello_accumulator (delta_event 0 EventDeltaTypeText '' world'')) = None
   \<and> map_of (contentBlocks (snd (AddEvent hello_accumulator
                                   (delta_event 0 EventDeltaTypeText '' world'')))) 0
       = Some (Some (TextContent ''Hello world'' None []))
   \<and> (\<exists>msg. AddEvent hello_accumulator (delta_event 0 EventDeltaTypeInputJSON ''{'')
               = (Some (Error msg), hello_accumulator))
   \<and> fst (AddEvent hello_accumulator (delta_event 0 EventDeltaTypeCitations [])) = None
   \<and> contentBlocks (snd (AddEvent hello_accumulator (delta_event 0 EventDeltaTypeCitations [])))
       = contentBlocks hello_accumulator"
proof -
  have r: "response hello_accumulator = Some snapshot"
    and b: "map_of (contentBlocks hello_accumulator) 0 = Some (Some (TextContent ''Hello'' None []))"
    by (simp_all add: hello_accumulator_def)
  have e: "Event.Type (delta_event 0 t p) = EventTypeContentBlockDelta"
    "Event.Index (delta_event 0 t p) = Some 0"
    "Delta (delta_event 0 t p) = Some ((bare_delta t)\<lparr>EventDelta.Text := p, PartialJSON := p\<rparr>)"
    for t p
    by (simp_all add: delta_event_def bare_event_def)
  have d: "EventDelta.Type ((bare_delta t)\<lparr>EventDelta.Text := p, PartialJSON := p\<rparr>) = t"
    "EventDelta.Text ((bare_delta t)\<lparr>EventDelta.Text := p, PartialJSON := p\<rparr>) = p"
    for t p
    by (simp_all add: bare_delta_def)
  note w = e [of EventDeltaTypeText "'' world''"]
  note j = e [of EventDeltaTypeInputJSON "''{''"]
  note c = e [of EventDeltaTypeCitations "[]"]
  from text_block_delta_merge [OF r w(1) w(2) w(3) b]
       text_block_delta_merge [OF r j(1) j(2) j(3) b]
       text_block_delta_merge [OF r c(1) c(2) c(3) b]
  show ?thesis by (simp add: d EventDeltaType_defs)
qed

text \<open>
  Claim C2 as stated fails: a delta whose discriminant is \<open>citations_delta\<close>, or one
  that is not among the declared constants, matches no case of the switch; aimed at a
  text block it is accepted with a nil error.
\<close>

theorem unmatched_delta_discriminant_is_accepted:
  "AddEvent hello_accumulator (delta_event 0 EventDeltaTypeCitations ''x'')
     = (None, hello_accumulator)
   \<and> AddEvent hello_accumulator (delta_event 0 ''future_delta'' ''x'')
     = (None, hello_accumulator)"
  by (simp add: AddEvent_def example_defs mergeDelta_def updateUsage_def EventType_defs
        EventDeltaType_defs)

lemma finalizeContent_usage:
  assumes "response r = Some resp"
  shows "\<exists>resp'. response (finalizeContent r) = Some resp'
           \<and> Response.Usage resp' = Response.Usage resp"
  using assms by (auto simp: finalizeContent_def Let_def)

lemma AddEvent_usage_step:
  assumes "response r = Some resp" "Event.Type event \<noteq> EventTypeMessageStart"
    "AddEvent r event = (None, r')"
  shows "\<exists>resp'. response r' = Some resp' \<and>
     Response.Usage resp' = (case Event.Usage event of None \<Rightarrow> Response.Usage resp
         | Some u \<Rightarrow> addUsage (Response.Usage resp) u)"
proof -
  consider (start) "Event.Type event = EventTypeContentBlockStart"
    | (delta) "Event.Type event = EventTypeContentBlockDelta"
    | (mdelta) "Event.Type event = EventTypeMessageDelta"
    | (stop) "Event.Type event = EventTypeMessageStop"
    | (other) "Event.Type event \<notin> {EventTypeMessageStart, EventTypeContentBlockStart,
         EventTypeContentBlockDelta, EventTypeMessageDelta, EventTypeMessageStop}"
    using assms(2) by auto
  then show ?thesis
  proof cases
    case start
    then show ?thesis using assms
      by (auto simp: AddEvent_def EventType_defs Let_def updateUsage_response
               split: option.splits)
  next
    case delta
    then show ?thesis using assms
      by (auto simp: AddEvent_def EventType_defs Let_def updateUsage_response
               split: option.splits sum.splits)
  next
    case mdelta
    then show ?thesis using assms
      by (auto simp: AddEvent_def EventType_defs Let_def updateUsage_response
               split: option.splits)
  next
    case stop
    obtain resp1 where r1: "response (finalizeContent (r\<lparr>complete := True\<rparr>)) = Some resp1"
       "Response.Usage resp1 = Response.Usage resp"
      using finalizeContent_usage [of "r\<lparr>complete := True\<rparr>" resp] assms(1) by auto
    from stop assms(3)
    have "updateUsage (finalizeContent (r\<lparr>complete := True\<rparr>)) event = (None, r')"
      by (simp add: AddEvent_def EventType_defs)
    then show ?thesis using r1 by (auto simp: updateUsage_response split: option.splits)
  next
    case other
    then show ?thesis using assms
      by (auto simp: AddEvent_def updateUsage_response)
  qed
qed

lemma AddEvents_usage:
  assumes "response r = Some resp" "\<forall>e\<in>set events. Event.Type e \<noteq> EventTypeMessageStart"
    "map Event.Usage events = map Some us" "AddEvents r events = (None, r')"
  shows "\<exists>resp'. response r' = Some resp' \<and>
     Response.Usage resp' = foldl addUsage (Response.Usage resp) us"
  using assms
proof (induction events arbitrary: r resp us)
  case Nil
  then show ?case by simp
next
  case (Cons e es)
  from Cons.prems(3) obtain u us'
    where us: "us = u # us'" "Event.Usage e = Some u" "map Event.Usage es = map Some us'"
    by (cases us) auto
  from Cons.prems(4) obtain r1 where r1: "AddEvent r e = (None, r1)" "AddEvents r1 es = (None, r')"
    by (auto split: prod.splits option.splits)
  from AddEvent_usage_step [OF Cons.prems(1) _ r1(1)] Cons.prems(2) us(2)
  obtain resp1 where resp1: "response r1 = Some resp1"
    "Response.Usage resp1 = addUsage (Response.Usage resp) u"
    by auto
  from Cons.IH [OF resp1(1) _ us(3) r1(2)] Cons.prems(2)
  show ?case using resp1(2) us(1) by simp
qed

lemma foldl_addUsage:
  "InputTokens (foldl addUsage t us) = InputTokens t + sum_list (map InputTokens us)"
  "OutputTokens (foldl addUsage t us) = OutputTokens t + sum_list (map OutputTokens us)"
  "CacheCreationInputTokens (foldl addUsage t us)
     = CacheCreationInputTokens t + sum_list (map CacheCreationInputTokens us)"
  "CacheReadInputTokens (foldl addUsage t us)
     = CacheReadInputTokens t + sum_list (map CacheReadInputTokens us)"
  by (induction us arbitrary: t; simp add: addUsage_def add.assoc)+

text \<open>
  Claim C3, as amended. A \<open>message_start\<close> event adopts its snapshot and returns before
  the usage step, so its own usage payload is not added. For every sequence of events
  after it, none of them a \<open>message_start\<close>, each carrying a usage payload and all
  accepted, the final usage of the response is, counter by counter, the usage of the
  snapshot plus the sum of the payloads of these events (in Go's wrapping \<open>int\<close>
  arithmetic), whatever the kinds of the events.
\<close>

theorem usage_is_snapshot_plus_later_events:
  assumes "Event.Type start = EventTypeMessageStart" "Message start = Some m"
    "\<forall>e\<in>set events. Event.Type e \<noteq> EventTypeMessageStart"
    "map Event.Usage events = map Some us"
    "fst (AddEvents r (start # events)) = None"
  shows "\<exists>resp'. response (snd (AddEvents r (start # events))) = Some resp' \<and>
     InputTokens (Response.Usage resp')
       = InputTokens (Response.Usage m) + sum_list (map InputTokens us) \<and>
     OutputTokens (Response.Usage resp')
       = OutputTokens (Response.Usage m) + sum_list (map OutputTokens us) \<and>
     CacheCreationInputTokens (Response.Usage resp')
       = CacheCreationInputTokens (Response.Usage m)
         + sum_list (map CacheCreationInputTokens us) \<and>
     CacheReadInputTokens (Response.Usage resp')
       = CacheReadInputTokens (Response.Usage m) + sum_list (map CacheReadInputTokens us)"
proof -
  have s: "AddEvent r start = (None, r\<lparr>response := Some m\<rparr>)"
    using assms(1,2) by (simp add: AddEvent_def)
  obtain r' where r': "AddEvents (r\<lparr>response := Some m\<rparr>) events = (None, r')"
    using assms(5) s by (cases "AddEvents (r\<lparr>response := Some m\<rparr>) events") simp
  from AddEvents_usage [OF _ assms(3,4) r', of m]
  obtain resp' where "response r' = Some resp'"
    "Response.Usage resp' = foldl addUsage (Response.Usage m) us"
    by auto
  then show ?thesis using s r' by (simp add: foldl_addUsage)
qed

theorem usage_is_snapshot_plus_later_events_witness:
  "fst (AddEvents NewResponseAccumulator
         [message_start_event\<lparr>Event.Usage := Some (usage4 100 100 100 100)\<rparr>,
          (bare_event EventTypeMessageDelta)
            \<lparr>Delta := Some (bare_delta []), Event.Usage := Some (usage4 1 2 3 4)\<rparr>,
          (bare_event EventTypePing)\<lparr>Event.Usage := Some (usage4 10 20 30 40)\<rparr>]) = None
   \<and> (\<exists>resp'. response (snd (AddEvents NewResponseAccumulator
         [message_start_event\<lparr>Event.Usage := Some (usage4 100 100 100 100)\<rparr>,
          (bare_event EventTypeMessageDelta)
            \<lparr>Delta := Some (bare_delta []), Event.Usage := Some (usage4 1 2 3 4)\<rparr>,
          (bare_event EventTypePing)\<lparr>Event.Usage := Some (usage4 10 20 30 40)\<rparr>])) = Some resp'
        \<and> InputTokens (Response.Usage resp') = 11
        \<and> OutputTokens (Response.Usage resp') = 22
        \<and> CacheCreationInputTokens (Response.Usage resp') = 33
        \<and> CacheReadInputTokens (Response.Usage resp') = 44)"
proof -
  let ?start = "message_start_event\<lparr>Event.Usage := Some (usage4 100 100 100 100)\<rparr>"
  let ?events = "[(bare_event EventTypeMessageDelta)
            \<lparr>Delta := Some (bare_delta []), Event.Usage := Some (usage4 1 2 3 4)\<rparr>,
          (bare_event EventTypePing)\<lparr>Event.Usage := Some (usage4 10 20 30 40)\<rparr>]"
  have h1: "Event.Type ?start = EventTypeMessageStart" "Message ?start = Some snapshot"
    by (simp_all add: example_defs)
  have h3: "\<forall>e\<in>set ?events. Event.Type e \<noteq> EventTypeMessageStart"
    by (simp add: example_defs EventType_defs)
  have h4: "map Event.Usage ?events = map Some [usage4 1 2 3 4, usage4 10 20 30 40]"
    by (simp add: example_defs)
  have h5: "fst (AddEvents NewResponseAccumulator (?start # ?events)) = None"
    by (simp add: example_defs AddEvent_def NewResponseAccumulator_def updateUsage_def
          EventType_defs)
  from usage_is_snapshot_plus_later_events [OF h1 h3 h4 h5] h5
  show ?thesis by (simp add: snapshot_def usage4_def)
qed

text \<open>
  Claim C3 as stated fails: the usage carried by the \<open>message_start\<close> event itself is
  not counted. One accepted event with the counters (1, 2, 3, 4) leaves the usage at the
  snapshot's zeros.
\<close>

theorem message_start_usage_is_not_added:
  "AddEvents NewResponseAccumulator
     [message_start_event\<lparr>Event.Usage := Some (usage4 1 2 3 4)\<rparr>]
     = (None, NewResponseAccumulator\<lparr>response := Some snapshot\<rparr>)
   \<and> Response.Usage snapshot = usage4 0 0 0 0
   \<and> usage4 0 0 0 0 \<noteq> usage4 1 2 3 4"
  by (simp add: example_defs AddEvent_def NewResponseAccumulator_def EventType_defs)

text \<open>
  Claim C4, as amended. In the empty state (no response yet) \<open>AddEvent\<close> returns an
  error, and changes nothing, for an event of type \<open>content_block_start\<close>,
  \<open>content_block_delta\<close> or \<open>message_delta\<close>. \<open>content_block_stop\<close> has no case in the
  dispatch: an event of that type which carries no usage is accepted with a nil error.
\<close>

theorem empty_state_rejects_start_and_deltas:
  assumes "response r = None"
  shows "(Event.Type event = EventTypeContentBlockStart
          \<or> Event.Type event = EventTypeContentBlockDelta
          \<or> Event.Type event = EventTypeMessageDelta
          \<longrightarrow> (\<exists>msg. AddEvent r event = (Some (Error msg), r)))
       \<and> (Event.Type event = EventTypeContentBlockStop \<and> Event.Usage event = None
          \<longrightarrow> AddEvent r event = (None, r))"
  using assms
  by (auto simp: AddEvent_def updateUsage_def EventType_defs)

theorem empty_state_rejects_start_and_deltas_witness:
  "(\<exists>msg. AddEvent NewResponseAccumulator (text_start 0 ''Hi'')
            = (Some (Error msg), NewResponseAccumulator))
   \<and> (\<exists>msg. AddEvent NewResponseAccumulator (delta_event 0 EventDeltaTypeText ''Hi'')
            = (Some (Error msg), NewResponseAccumulator))
   \<and> (\<exists>msg. AddEvent NewResponseAccumulator (bare_event EventTypeMessageDelta)
            = (Some (Error msg), NewResponseAccumulator))
   \<and> AddEvent NewResponseAccumulator (bare_event EventTypeContentBlockStop)
       = (None, NewResponseAccumulator)"
proof -
  have r: "response NewResponseAccumulator = None"
    by (simp add: NewResponseAccumulator_def)
  from empty_state_rejects_start_and_deltas [OF r, of "text_start 0 ''Hi''"]
       empty_state_rejects_start_and_deltas [OF r, of "delta_event 0 EventDeltaTypeText ''Hi''"]
       empty_state_rejects_start_and_deltas [OF r, of "bare_event EventTypeMessageDelta"]
       empty_state_rejects_start_and_deltas [OF r, of "bare_event EventTypeContentBlockStop"]
  show ?thesis by (simp add: example_defs EventType_defs)
qed

text \<open>
  Claim C4 as stated fails for \<open>content_block_stop\<close>: on a new accumulator the event
  is accepted, \<open>AddEvent\<close> returns nil.
\<close>

theorem content_block_stop_in_empty_state_is_accepted:
  "AddEvent NewResponseAccumulator ((bare_event EventTypeContentBlockStop)\<lparr>Event.Index := Some 0\<rparr>)
     = (None, NewResponseAccumulator)"
  by (simp add: AddEvent_def updateUsage_def example_defs EventType_defs)

text \<open>
  Claim C8. In a started accumulator a \<open>message_delta\<close> event with a delta is accepted;
  afterwards the stop reason of the response is the delta's when that is non-empty and
  the previous one otherwise, and likewise the stop sequence: an empty string never
  clears a field.
\<close>

theorem message_delta_empty_strings_keep_stop_fields:
  assumes "response r = Some resp" "Event.Type event = EventTypeMessageDelta"
    "Delta event = Some delta"
  shows "\<exists>resp'. fst (AddEvent r event) = None
     \<and> response (snd (AddEvent r event)) = Some resp'
     \<and> Response.StopReason resp' =
         (if EventDelta.StopReason delta = [] then Response.StopReason resp
          else EventDelta.StopReason delta)
     \<and> Response.StopSequence resp' =
         (if EventDelta.StopSequence delta = [] then Response.StopSequence resp
          else Some (EventDelta.StopSequence delta))"
  using assms
  by (auto simp: AddEvent_def updateUsage_def EventType_defs Let_def split: option.splits)

theorem message_delta_empty_strings_keep_stop_fields_witness:
  "(\<exists>resp'. response (snd (AddEvent
        (NewResponseAccumulator\<lparr>response := Some (snapshot\<lparr>Response.StopReason := ''end_turn'',
                                            Response.StopSequence := Some ''END''\<rparr>)\<rparr>)
        ((bare_event EventTypeMessageDelta)\<lparr>Delta := Some (bare_delta [])\<rparr>))) = Some resp'
     \<and> Response.StopReason resp' = ''end_turn''
     \<and> Response.StopSequence resp' = Some ''END'')
   \<and> (\<exists>resp'. response (snd (AddEvent
        (NewResponseAccumulator\<lparr>response := Some (snapshot\<lparr>Response.StopReason := ''end_turn'',
                                            Response.StopSequence := Some ''END''\<rparr>)\<rparr>)
        ((bare_event EventTypeMessageDelta)
           \<lparr>Delta := Some ((bare_delta [])\<lparr>StopReason := ''tool_use''\<rparr>)\<rparr>))) = Some resp'
     \<and> Response.StopReason resp' = ''tool_use''
     \<and> Response.StopSequence resp' = Some ''END'')"
proof -
  let ?r = "NewResponseAccumulator\<lparr>response := Some (snapshot\<lparr>Response.StopReason := ''end_turn'',
                                            Response.StopSequence := Some ''END''\<rparr>)\<rparr>"
  have r: "response ?r = Some (snapshot\<lparr>Response.StopReason := ''end_turn'',
                                            Response.StopSequence := Some ''END''\<rparr>)"
    by simp
  have e: "Event.Type ((bare_event EventTypeMessageDelta)\<lparr>Delta := Some d\<rparr>) = EventTypeMessageDelta"
    "Delta ((bare_event EventTypeMessageDelta)\<lparr>Delta := Some d\<rparr>) = Some d" for d
    by (simp_all add: bare_event_def)
  from message_delta_empty_strings_keep_stop_fields [OF r e [of "bare_delta []"]]
       message_delta_empty_strings_keep_stop_fields
         [OF r e [of "(bare_delta [])\<lparr>StopReason := ''tool_use''\<rparr>"]]
  show ?thesis by (simp add: bare_delta_def)
qed

text \<open>
  Claim C10. On an accumulator that has no response yet (a new one in particular), an
  event of type \<open>ping\<close>, \<open>content_block_stop\<close> or \<open>message_stop\<close> that carries a usage
  payload reaches the usage step, where \<open>r.response.Usage\<close> dereferences the nil
  response: \<open>AddEvent\<close> panics instead of returning an error.
\<close>

theorem usage_without_response_panics:
  assumes "response r = None"
    and "Event.Type event = EventTypePing \<or> Event.Type event = EventTypeContentBlockStop
         \<or> Event.Type event = EventTypeMessageStop"
    and "Event.Usage event = Some u"
  shows "fst (AddEvent r event) = Some Panic"
  using assms
  by (auto simp: AddEvent_def updateUsage_def finalizeContent_def EventType_defs)

theorem usage_without_response_panics_witness:
  "fst (AddEvent NewResponseAccumulator
         ((bare_event EventTypePing)\<lparr>Event.Usage := Some (usage4 1 2 0 0)\<rparr>)) = Some Panic
   \<and> fst (AddEvent NewResponseAccumulator
         ((bare_event EventTypeContentBlockStop)\<lparr>Event.Usage := Some (usage4 1 2 0 0)\<rparr>))
       = Some Panic
   \<and> fst (AddEvent NewResponseAccumulator
         ((bare_event EventTypeMessageStop)\<lparr>Event.Usage := Some (usage4 1 2 0 0)\<rparr>))
       = Some Panic"
proof -
  let ?ev = "\<lambda>t. (bare_event t)\<lparr>Event.Usage := Some (usage4 1 2 0 0)\<rparr>"
  have r: "response NewResponseAccumulator = None"
    by (simp add: NewResponseAccumulator_def)
  have e: "Event.Type (?ev t) = t" for t
    by (simp add: bare_event_def)
  have u: "Event.Usage (?ev t) = Some (usage4 1 2 0 0)" for t
    by (simp add: bare_event_def)
  have "fst (AddEvent NewResponseAccumulator (?ev EventTypePing)) = Some Panic"
    using usage_without_response_panics [OF r _ u [of EventTypePing]] by (simp add: e)
  moreover have "fst (AddEvent NewResponseAccumulator (?ev EventTypeContentBlockStop)) = Some Panic"
    using usage_without_response_panics [OF r _ u [of EventTypeContentBlockStop]]
    by (simp add: e)
  moreover have "fst (AddEvent NewResponseAccumulator (?ev EventTypeMessageStop)) = Some Panic"
    using usage_without_response_panics [OF r _ u [of EventTypeMessageStop]] by (simp add: e)
  ultimately show ?thesis by simp
qed


section \<open>Properties of the reordering\<close>

lemma Content_Type_ToolUse: "Content_Type b = ContentTypeToolUse \<longleftrightarrow> isToolUse b"
  by (cases b)
     (simp_all add: ContentTypeText_def ContentTypeImage_def ContentTypeDocument_def
        ContentTypeToolUse_def ContentTypeToolResult_def ContentTypeThinking_def
        ContentTypeRedactedThinking_def ContentTypeServerToolUse_def
        ContentTypeWebSearchToolResult_def ContentTypeMCPToolUse_def
        ContentTypeMCPToolResult_def ContentTypeMCPListTools_def
        ContentTypeMCPApprovalRequest_def ContentTypeMCPApprovalResponse_def
        ContentTypeCodeExecutionToolResult_def ContentTypeRefusal_def)

lemma separate_filter:
  "separate blocks toolUseBlocks otherBlocks =
     (toolUseBlocks @ filter isToolUse blocks, otherBlocks @ filter (\<lambda>b. \<not> isToolUse b) blocks)"
  by (induction blocks arbitrary: toolUseBlocks otherBlocks)
     (simp_all add: Content_Type_ToolUse)

lemma reorderMessage_eq:
  "reorderMessage msg =
     (if Message.Role msg = Assistant \<and> 2 \<le> length (Message.Content msg)
         \<and> (\<exists>b\<in>set (Message.Content msg). isToolUse b)
         \<and> (\<exists>b\<in>set (Message.Content msg). \<not> isToolUse b)
      then msg\<lparr>Message.Content := toolUseLast (Message.Content msg)\<rparr>
      else msg)"
  by (auto simp: reorderMessage_def separate_filter toolUseLast_def filter_empty_conv)

text \<open>
  Claim C9. \<open>reorderMessageContent\<close> rewrites exactly the assistant messages that have
  at least two blocks, among them a tool-use block and a block that is not one: their
  content becomes the blocks that are not tool-use blocks followed by the tool-use
  blocks, each group in its original order. Every other message (another role, fewer
  than two blocks, blocks all of one kind) is left as it is.
\<close>

theorem reorderMessageContent_moves_tool_use_last:
  "reorderMessageContent messages =
     map (\<lambda>msg.
            if Message.Role msg = Assistant \<and> 2 \<le> length (Message.Content msg)
               \<and> (\<exists>b\<in>set (Message.Content msg). isToolUse b)
               \<and> (\<exists>b\<in>set (Message.Content msg). \<not> isToolUse b)
            then msg\<lparr>Message.Content :=
                       filter (\<lambda>b. \<not> isToolUse b) (Message.Content msg)
                       @ filter isToolUse (Message.Content msg)\<rparr>
            else msg)
         messages"
  unfolding reorderMessageContent_def
  by (rule map_cong [OF refl]) (simp add: reorderMessage_eq toolUseLast_def)

theorem reorderMessageContent_moves_tool_use_last_witness:
  "reorderMessageContent [assistant_mixed, user_mixed] =
     [assistant_mixed\<lparr>Message.Content :=
        [TextContent ''Here is the result:'' None [], TextContent ''Additional text'' None [],
         ToolUseContent ''tool1'' ''test_tool'' [], ToolUseContent ''tool2'' ''test_tool2'' []]\<rparr>,
      user_mixed]"
  using reorderMessageContent_moves_tool_use_last [of "[assistant_mixed, user_mixed]"]
  by (simp add: assistant_mixed_def user_mixed_def Assistant_def User_def)


section \<open>Properties of the server-sent events reader\<close>

lemma readUntil_line:
  assumes "is_line l"
  shows "readUntil (CHR 0x0A) (l @ rest) = Some (l, rest)"
proof -
  from assms obtain body where l: "l = body @ [CHR 0x0A]" and nl: "CHR 0x0A \<notin> set body"
    unfolding is_line_def by (metis append_butlast_last_id)
  have "readUntil (CHR 0x0A) (body @ CHR 0x0A # rest) = Some (body @ [CHR 0x0A], rest)"
    using nl by (induction body) auto
  then show ?thesis by (simp add: l)
qed

lemma readUntil_no_newline: "d \<notin> set bytes \<Longrightarrow> readUntil d bytes = None"
  by (induction bytes) auto

lemma Next_line:
  assumes "is_line l" "callback_passes s l"
  shows "ServerSentEventsReader_Next TrimSpace Unmarshal (s\<lparr>pending := l @ rest\<rparr>) =
     (if TrimSpace l = [] then
        ServerSentEventsReader_Next TrimSpace Unmarshal (s\<lparr>pending := rest\<rparr>)
      else if line_payload TrimSpace l = ''[DONE]'' then (None, s\<lparr>pending := rest\<rparr>)
      else if \<not> HasPrefix (line_payload TrimSpace l) ''{'' then
        ServerSentEventsReader_Next TrimSpace Unmarshal (s\<lparr>pending := rest\<rparr>)
      else (case Unmarshal (line_payload TrimSpace l) of
              Inl e \<Rightarrow> (None, s\<lparr>pending := rest, ServerSentEventsReader.err := Some e\<rparr>)
            | Inr event \<Rightarrow> (Some event, s\<lparr>pending := rest\<rparr>)))"
proof -
  have rb: "ReadBytes (CHR 0x0A) (s\<lparr>pending := l @ rest\<rparr>) = ((l, None), s\<lparr>pending := rest\<rparr>)"
    by (simp add: ReadBytes_def readUntil_line [OF assms(1)])
  have cb: "(case sseCallback s of None \<Rightarrow> None | Some callback \<Rightarrow> callback l) = None"
    using assms(2) by (simp add: callback_passes_def split: option.splits)
  show ?thesis
    by (subst ServerSentEventsReader_Next.simps) (simp add: rb cb line_payload_def Let_def)
qed

lemma Next_skips_noise:
  assumes "\<forall>l\<in>set ls. is_line l \<and> callback_passes s l \<and> noise TrimSpace l"
  shows "ServerSentEventsReader_Next TrimSpace Unmarshal (s\<lparr>pending := concat ls @ rest\<rparr>)
           = ServerSentEventsReader_Next TrimSpace Unmarshal (s\<lparr>pending := rest\<rparr>)"
  using assms
proof (induction ls)
  case Nil
  then show ?case by simp
next
  case (Cons l ls)
  then have l: "is_line l" "callback_passes s l" "noise TrimSpace l" by auto
  have "ServerSentEventsReader_Next TrimSpace Unmarshal (s\<lparr>pending := l @ concat ls @ rest\<rparr>)
          = ServerSentEventsReader_Next TrimSpace Unmarshal (s\<lparr>pending := concat ls @ rest\<rparr>)"
    using l(3) by (auto simp: Next_line [OF l(1,2)] noise_def)
  then show ?case using Cons by simp
qed

text \<open>
  Claim C5. Let the unread stream start with any number of noise lines (blank lines, and
  lines whose line_payload, after stripping an optional \<open>data: \<close> prefix, does not start with
  an opening brace), on which the callback, if set, raises nothing. \<open>Next\<close> skips them
  all. Then: at the end of the stream (\<open>io.EOF\<close>) and at a \<open>[DONE]\<close> line it returns
  false and leaves the error as it was (nil if none was set before); at a line whose
  line_payload starts with a brace and fails to decode it returns false and \<open>Err()\<close> gives the
  decoder's error; at such a line that decodes it returns the event.
\<close>

theorem Next_skips_noise_and_ends:
  assumes "\<forall>l\<in>set ls. is_line l \<and> callback_passes s l \<and> noise TrimSpace l"
  shows "ServerSentEventsReader_Next TrimSpace Unmarshal (s\<lparr>pending := concat ls @ rest\<rparr>)
           = ServerSentEventsReader_Next TrimSpace Unmarshal (s\<lparr>pending := rest\<rparr>)
    \<and> (CHR 0x0A \<notin> set rest \<and> final s = EOF \<longrightarrow>
           ServerSentEventsReader_Next TrimSpace Unmarshal (s\<lparr>pending := concat ls @ rest\<rparr>)
             = (None, s\<lparr>pending := []\<rparr>)
           \<and> ServerSentEventsReader_Err (s\<lparr>pending := []\<rparr>) = ServerSentEventsReader_Err s)
    \<and> (is_line l \<and> callback_passes s l \<and> TrimSpace l \<noteq> []
         \<and> line_payload TrimSpace l = ''[DONE]'' \<longrightarrow>
           ServerSentEventsReader_Next TrimSpace Unmarshal (s\<lparr>pending := concat ls @ l @ rest\<rparr>)
             = (None, s\<lparr>pending := rest\<rparr>)
           \<and> ServerSentEventsReader_Err (s\<lparr>pending := rest\<rparr>) = ServerSentEventsReader_Err s)
    \<and> (is_line l \<and> callback_passes s l \<and> TrimSpace l \<noteq> []
         \<and> line_payload TrimSpace l \<noteq> ''[DONE]'' \<and> HasPrefix (line_payload TrimSpace l) ''{''
         \<and> Unmarshal (line_payload TrimSpace l) = Inl e \<longrightarrow>
           ServerSentEventsReader_Next TrimSpace Unmarshal (s\<lparr>pending := concat ls @ l @ rest\<rparr>)
             = (None, s\<lparr>pending := rest, ServerSentEventsReader.err := Some e\<rparr>)
           \<and> ServerSentEventsReader_Err
                (s\<lparr>pending := rest, ServerSentEventsReader.err := Some e\<rparr>) = Some e)
    \<and> (is_line l \<and> callback_passes s l \<and> TrimSpace l \<noteq> []
         \<and> line_payload TrimSpace l \<noteq> ''[DONE]'' \<and> HasPrefix (line_payload TrimSpace l) ''{''
         \<and> Unmarshal (line_payload TrimSpace l) = Inr event \<longrightarrow>
           ServerSentEventsReader_Next TrimSpace Unmarshal (s\<lparr>pending := concat ls @ l @ rest\<rparr>)
             = (Some event, s\<lparr>pending := rest\<rparr>))"
proof -
  note skip = Next_skips_noise [OF assms]
  have eof: "ServerSentEventsReader_Next TrimSpace Unmarshal (s\<lparr>pending := rest\<rparr>)
               = (None, s\<lparr>pending := []\<rparr>)"
    if "CHR 0x0A \<notin> set rest" "final s = EOF"
    using that
    by (subst ServerSentEventsReader_Next.simps) (simp add: ReadBytes_def readUntil_no_newline)
  show ?thesis
    unfolding skip
    by (intro conjI impI) (simp_all add: eof Next_line ServerSentEventsReader_Err_def)
qed

theorem Next_skips_noise_and_ends_witness:
  "ServerSentEventsReader_Next asciiTrimSpace decodeExample
     (example_reader (''\<newline>'' @ ''event: ping\<newline>'' @ ''data: [DONE]\<newline>'' @ ''data: {}\<newline>''))
     = (None, example_reader ''data: {}\<newline>'')
   \<and> ServerSentEventsReader_Err (example_reader ''data: {}\<newline>'') = None
   \<and> ServerSentEventsReader_Next asciiTrimSpace decodeExample
     (example_reader (''\<newline>'' @ ''event: ping\<newline>'' @ ''data: {no'')) = (None, example_reader [])
   \<and> ServerSentEventsReader_Next asciiTrimSpace decodeExample
     (example_reader (''\<newline>'' @ ''event: ping\<newline>'' @ ''data: {no\<newline>'' @ ''data: {}\<newline>''))
     = (None, (example_reader ''data: {}\<newline>'')
                \<lparr>ServerSentEventsReader.err := Some (Error ''invalid character'')\<rparr>)
   \<and> ServerSentEventsReader_Next asciiTrimSpace decodeExample
     (example_reader (''\<newline>'' @ ''event: ping\<newline>'' @ ''data: {ping}\<newline>'' @ ''data: {}\<newline>''))
     = (Some (bare_event EventTypePing), example_reader ''data: {}\<newline>'')"
proof -
  let ?s = "example_reader []"
  let ?ls = "[''\<newline>'', ''event: ping\<newline>'']"
  have p: "?s\<lparr>pending := bytes\<rparr> = example_reader bytes" for bytes
    by (simp add: example_reader_def NewServerSentEventsReader_def)
  have cb: "callback_passes ?s l" for l
    by (simp add: callback_passes_def example_reader_def NewServerSentEventsReader_def)
  have fin: "final ?s = EOF"
    by (simp add: example_reader_def NewServerSentEventsReader_def)
  have ls: "\<forall>l\<in>set ?ls. is_line l \<and> callback_passes ?s l \<and> noise asciiTrimSpace l"
    by (simp add: cb is_line_def noise_def line_payload_def asciiTrimSpace_def asciiSpace_def
          TrimPrefix_def HasPrefix_def)
  have d: "is_line ''data: [DONE]\<newline>''" "asciiTrimSpace ''data: [DONE]\<newline>'' \<noteq> []"
    "line_payload asciiTrimSpace ''data: [DONE]\<newline>'' = ''[DONE]''"
    by (simp_all add: is_line_def line_payload_def asciiTrimSpace_def asciiSpace_def
          TrimPrefix_def)
  have b: "is_line ''data: {no\<newline>''" "asciiTrimSpace ''data: {no\<newline>'' \<noteq> []"
    "line_payload asciiTrimSpace ''data: {no\<newline>'' \<noteq> ''[DONE]''"
    "HasPrefix (line_payload asciiTrimSpace ''data: {no\<newline>'') ''{''"
    "decodeExample (line_payload asciiTrimSpace ''data: {no\<newline>'')
       = Inl (Error ''invalid character'')"
    by (simp_all add: is_line_def line_payload_def asciiTrimSpace_def asciiSpace_def
          TrimPrefix_def HasPrefix_def decodeExample_def)
  have g: "is_line ''data: {ping}\<newline>''" "asciiTrimSpace ''data: {ping}\<newline>'' \<noteq> []"
    "line_payload asciiTrimSpace ''data: {ping}\<newline>'' \<noteq> ''[DONE]''"
    "HasPrefix (line_payload asciiTrimSpace ''data: {ping}\<newline>'') ''{''"
    "decodeExample (line_payload asciiTrimSpace ''data: {ping}\<newline>'')
       = Inr (bare_event EventTypePing)"
    by (simp_all add: is_line_def line_payload_def asciiTrimSpace_def asciiSpace_def
          TrimPrefix_def HasPrefix_def decodeExample_def)
  have e: "CHR 0x0A \<notin> set ''data: {no''"
    by simp
  note t = Next_skips_noise_and_ends [OF ls, where Unmarshal = decodeExample]
  note at_done = t [where l = "''data: [DONE]\<newline>''" and rest = "''data: {}\<newline>''",
      THEN conjunct2, THEN conjunct2, THEN conjunct1, rule_format]
  note at_eof = t [where rest = "''data: {no''", THEN conjunct2, THEN conjunct1, rule_format]
  note at_bad = t [where l = "''data: {no\<newline>''" and rest = "''data: {}\<newline>''"
      and e = "Error ''invalid character''",
      THEN conjunct2, THEN conjunct2, THEN conjunct2, THEN conjunct1, rule_format]
  note at_good = t [where l = "''data: {ping}\<newline>''" and rest = "''data: {}\<newline>''"
      and event = "bare_event EventTypePing",
      THEN conjunct2, THEN conjunct2, THEN conjunct2, THEN conjunct2, rule_format]
  have "ServerSentEventsReader_Next asciiTrimSpace decodeExample
          (example_reader (concat ?ls @ ''data: [DONE]\<newline>'' @ ''data: {}\<newline>''))
          = (None, example_reader ''data: {}\<newline>'')"
    using at_done d cb by (simp add: p)
  moreover have "ServerSentEventsReader_Err (example_reader ''data: {}\<newline>'') = None"
    by (simp add: ServerSentEventsReader_Err_def example_reader_def
          NewServerSentEventsReader_def)
  moreover have "ServerSentEventsReader_Next asciiTrimSpace decodeExample
          (example_reader (concat ?ls @ ''data: {no'')) = (None, example_reader [])"
    using at_eof e fin by (simp add: p)
  moreover have "ServerSentEventsReader_Next asciiTrimSpace decodeExample
          (example_reader (concat ?ls @ ''data: {no\<newline>'' @ ''data: {}\<newline>''))
          = (None, (example_reader ''data: {}\<newline>'')
                     \<lparr>ServerSentEventsReader.err := Some (Error ''invalid character'')\<rparr>)"
    using at_bad b cb by (simp add: p example_reader_def NewServerSentEventsReader_def)
  moreover have "ServerSentEventsReader_Next asciiTrimSpace decodeExample
          (example_reader (concat ?ls @ ''data: {ping}\<newline>'' @ ''data: {}\<newline>''))
          = (Some (bare_event EventTypePing), example_reader ''data: {}\<newline>'')"
    using at_good g cb by (simp add: p)
  ultimately show ?thesis by simp
qed


lemma ServerSentEventsReader_events_lines:
  assumes "\<forall>l\<in>set ls. is_line l \<and> callback_passes s l"
  shows "ServerSentEventsReader_events TrimSpace Unmarshal (s\<lparr>pending := concat ls\<rparr>)
           = events_of_lines TrimSpace Unmarshal ls"
  using assms
proof (induction ls)
  case Nil
  have "fst (ServerSentEventsReader_Next TrimSpace Unmarshal (s\<lparr>pending := []\<rparr>)) = None"
    by (subst ServerSentEventsReader_Next.simps) (simp add: ReadBytes_def)
  then show ?case
    by (subst ServerSentEventsReader_events.simps) (auto split: prod.splits)
next
  case (Cons l ls)
  then have l: "is_line l" "callback_passes s l" by auto
  have ih: "ServerSentEventsReader_events TrimSpace Unmarshal (s\<lparr>pending := concat ls\<rparr>)
              = events_of_lines TrimSpace Unmarshal ls"
    using Cons by simp
  note nl = Next_line [OF l, of TrimSpace Unmarshal "concat ls"]
  consider (blank) "TrimSpace l = []"
    | (terminator) "TrimSpace l \<noteq> []" "line_payload TrimSpace l = ''[DONE]''"
    | (other) "TrimSpace l \<noteq> []" "line_payload TrimSpace l \<noteq> ''[DONE]''"
        "\<not> HasPrefix (line_payload TrimSpace l) ''{''"
    | (json) "TrimSpace l \<noteq> []" "line_payload TrimSpace l \<noteq> ''[DONE]''"
        "HasPrefix (line_payload TrimSpace l) ''{''"
    by blast
  then show ?case
  proof cases
    case blank
    have "ServerSentEventsReader_events TrimSpace Unmarshal (s\<lparr>pending := l @ concat ls\<rparr>)
            = ServerSentEventsReader_events TrimSpace Unmarshal (s\<lparr>pending := concat ls\<rparr>)"
      by (subst ServerSentEventsReader_events.simps, subst (2) ServerSentEventsReader_events.simps)
         (simp add: nl blank)
    then show ?thesis using blank ih by simp
  next
    case terminator
    have "ServerSentEventsReader_events TrimSpace Unmarshal (s\<lparr>pending := l @ concat ls\<rparr>) = []"
      by (subst ServerSentEventsReader_events.simps) (simp add: nl terminator)
    then show ?thesis using terminator by simp
  next
    case other
    have "ServerSentEventsReader_events TrimSpace Unmarshal (s\<lparr>pending := l @ concat ls\<rparr>)
            = ServerSentEventsReader_events TrimSpace Unmarshal (s\<lparr>pending := concat ls\<rparr>)"
      by (subst ServerSentEventsReader_events.simps, subst (2) ServerSentEventsReader_events.simps)
         (simp add: nl other)
    then show ?thesis using other ih by simp
  next
    case json
    show ?thesis
    proof (cases "Unmarshal (line_payload TrimSpace l)")
      case (Inl e)
      have "ServerSentEventsReader_events TrimSpace Unmarshal (s\<lparr>pending := l @ concat ls\<rparr>) = []"
        by (subst ServerSentEventsReader_events.simps) (simp add: nl json Inl)
      then show ?thesis using json Inl by simp
    next
      case (Inr event)
      have "ServerSentEventsReader_events TrimSpace Unmarshal (s\<lparr>pending := l @ concat ls\<rparr>)
              = event # ServerSentEventsReader_events TrimSpace Unmarshal (s\<lparr>pending := concat ls\<rparr>)"
        by (subst ServerSentEventsReader_events.simps) (simp add: nl json Inr)
      then show ?thesis using json Inr ih by simp
    qed
  qed
qed

section \<open>Properties of the stream iterator\<close>

lemma Contains_iff: "Contains s substr \<longleftrightarrow> (\<exists>before after. s = before @ substr @ after)"
proof (induction s)
  case Nil
  then show ?case by auto
next
  case (Cons c cs)
  have "HasPrefix (c # cs) substr \<longleftrightarrow> (\<exists>after. c # cs = substr @ after)"
    unfolding HasPrefix_def by (metis append_eq_conv_conj)
  moreover have "(\<exists>before after. c # cs = before @ substr @ after) \<longleftrightarrow>
      (\<exists>after. c # cs = substr @ after) \<or> (\<exists>before after. cs = before @ substr @ after)"
  proof
    assume "\<exists>before after. c # cs = before @ substr @ after"
    then obtain before after where eq: "c # cs = before @ substr @ after" by auto
    show "(\<exists>after. c # cs = substr @ after) \<or> (\<exists>before after. cs = before @ substr @ after)"
    proof (cases before)
      case Nil
      with eq show ?thesis by auto
    next
      case (Cons b bs)
      with eq have "cs = bs @ substr @ after" by simp
      then show ?thesis by blast
    qed
  next
    assume "(\<exists>after. c # cs = substr @ after) \<or> (\<exists>before after. cs = before @ substr @ after)"
    then show "\<exists>before after. c # cs = before @ substr @ after"
    proof
      assume "\<exists>after. c # cs = substr @ after"
      then show ?thesis by (metis append_Nil)
    next
      assume "\<exists>before after. cs = before @ substr @ after"
      then show ?thesis by (metis append_Cons)
    qed
  qed
  ultimately show ?case using Cons.IH by simp
qed

lemma processEvent_reader:
  "processEvent (s\<lparr>reader := rd\<rparr>) event =
     (case processEvent s event of (y, s') \<Rightarrow> (y, s'\<lparr>reader := rd\<rparr>))"
  by (auto simp: processEvent_def split: option.splits)

lemma processEvent_currentEvent:
  "processEvent (s\<lparr>currentEvent := c\<rparr>) event =
     (case processEvent s event of (y, s') \<Rightarrow> (y, s'\<lparr>currentEvent := c\<rparr>))"
  by (auto simp: processEvent_def split: option.splits)

lemma processEvents_reader:
  "processEvents (s\<lparr>reader := rd\<rparr>) events = processEvents s events"
  by (induction events arbitrary: s)
     (auto simp: processEvent_reader split: prod.splits option.splits)

lemma processEvents_currentEvent:
  "processEvents (s\<lparr>currentEvent := c\<rparr>) events = processEvents s events"
  by (induction events arbitrary: s)
     (auto simp: processEvent_currentEvent split: prod.splits option.splits)

lemma events_Nil:
  assumes "ServerSentEventsReader_events TrimSpace Unmarshal rd = []"
  shows "fst (ServerSentEventsReader_Next TrimSpace Unmarshal rd) = None"
  using assms
  by (subst (asm) ServerSentEventsReader_events.simps) (auto split: prod.splits option.splits)

lemma events_Cons:
  assumes "ServerSentEventsReader_events TrimSpace Unmarshal rd = event # events"
  shows "\<exists>rd'. ServerSentEventsReader_Next TrimSpace Unmarshal rd = (Some event, rd')
     \<and> ServerSentEventsReader_events TrimSpace Unmarshal rd' = events"
  using assms
  by (subst (asm) ServerSentEventsReader_events.simps) (auto split: prod.splits option.splits)

text \<open>
  Pulling through the iterator is \<open>processEvent\<close> applied, in order, to the events that
  its reader yields.
\<close>

lemma StreamIterator_events_processEvents:
  assumes "ServerSentEventsReader_events TrimSpace Unmarshal (reader s) = events"
  shows "StreamIterator_events TrimSpace Unmarshal s = map Some (processEvents s events)"
  using assms
proof (induction events arbitrary: s)
  case Nil
  then obtain rd where "ServerSentEventsReader_Next TrimSpace Unmarshal (reader s) = (None, rd)"
    using events_Nil by (metis fst_conv surj_pair)
  then have "fst (StreamIterator_Next TrimSpace Unmarshal s) = False"
    by (subst StreamIterator_Next.simps) simp
  then show ?case
    by (subst StreamIterator_events.simps) (auto split: prod.splits)
next
  case (Cons event events)
  from events_Cons [OF Cons.prems]
  obtain rd where nx: "ServerSentEventsReader_Next TrimSpace Unmarshal (reader s) = (Some event, rd)"
    and rest: "ServerSentEventsReader_events TrimSpace Unmarshal rd = events"
    by auto
  obtain y s' where pe: "processEvent s event = (y, s')"
    by (metis surj_pair)
  then have pe': "processEvent (s\<lparr>reader := rd\<rparr>) event = (y, s'\<lparr>reader := rd\<rparr>)"
    by (simp add: processEvent_reader)
  show ?case
  proof (cases y)
    case None
    have "StreamIterator_Next TrimSpace Unmarshal s
            = StreamIterator_Next TrimSpace Unmarshal (s'\<lparr>reader := rd\<rparr>)"
      by (subst StreamIterator_Next.simps) (simp add: nx pe' None)
    then have "StreamIterator_events TrimSpace Unmarshal s
            = StreamIterator_events TrimSpace Unmarshal (s'\<lparr>reader := rd\<rparr>)"
      by (subst StreamIterator_events.simps, subst (2) StreamIterator_events.simps) simp
    moreover have "StreamIterator_events TrimSpace Unmarshal (s'\<lparr>reader := rd\<rparr>)
            = map Some (processEvents (s'\<lparr>reader := rd\<rparr>) events)"
      using Cons.IH [of "s'\<lparr>reader := rd\<rparr>"] rest by simp
    ultimately show ?thesis
      using pe None by (simp add: processEvents_reader)
  next
    case (Some processedEvent)
    let ?s1 = "s'\<lparr>reader := rd, currentEvent := Some processedEvent\<rparr>"
    have n: "StreamIterator_Next TrimSpace Unmarshal s = (True, ?s1)"
      by (subst StreamIterator_Next.simps) (simp add: nx pe' Some)
    have "StreamIterator_events TrimSpace Unmarshal ?s1 = map Some (processEvents ?s1 events)"
      using Cons.IH [of ?s1] rest by simp
    then have "StreamIterator_events TrimSpace Unmarshal s
            = Some processedEvent # map Some (processEvents ?s1 events)"
      by (subst StreamIterator_events.simps) (simp add: n StreamIterator_Event_def)
    moreover have "processEvents ?s1 events = processEvents s' events"
      using processEvents_currentEvent
        [where s = "s'\<lparr>reader := rd\<rparr>" and c = "Some processedEvent" and events = events]
      by (simp add: processEvents_reader)
    ultimately show ?thesis
      using pe Some by simp
  qed
qed

lemma processEvents_no_prefill:
  assumes "prefill s = []"
  shows "processEvents s events = filter (\<lambda>x. Event.Type x \<noteq> []) events"
  using assms by (induction events) (auto simp: processEvent_def)

text \<open>
  An event triggers the injection when it starts a text block and the closing tag, if
  one is configured, occurs in the text.
\<close>

lemma processEvent_not_triggered:
  assumes "\<not> (is_text_start event
              \<and> (prefillClosingTag s = [] \<or> Contains (start_text event) (prefillClosingTag s)))"
  shows "processEvent s event = (if Event.Type event = [] then None else Some event, s)"
  using assms
  by (auto simp: processEvent_def is_text_start_def start_text_def split: option.splits)

lemma processEvent_triggered:
  assumes "is_text_start event"
    "prefillClosingTag s = [] \<or> Contains (start_text event) (prefillClosingTag s)"
    "prefill s \<noteq> []"
  shows "processEvent s event = (Some (with_prefill (prefill s) event), s\<lparr>prefill := []\<rparr>)"
  using assms
  by (auto simp: processEvent_def is_text_start_def start_text_def with_prefill_def
        EventTypeContentBlockStart_def split: option.splits)

lemma processEvents_first_trigger:
  assumes "prefill s \<noteq> []"
    and "\<forall>x\<in>set pre. \<not> (is_text_start x
            \<and> (prefillClosingTag s = [] \<or> Contains (start_text x) (prefillClosingTag s)))"
    and "is_text_start e"
    and "prefillClosingTag s = [] \<or> Contains (start_text e) (prefillClosingTag s)"
  shows "processEvents s (pre @ e # post) =
     filter (\<lambda>x. Event.Type x \<noteq> []) pre @ with_prefill (prefill s) e
       # filter (\<lambda>x. Event.Type x \<noteq> []) post"
  using assms(2)
proof (induction pre)
  case Nil
  show ?case
    using processEvent_triggered [OF assms(3,4,1)]
    by (simp add: processEvents_no_prefill)
next
  case (Cons x pre)
  then have "processEvent s x = (if Event.Type x = [] then None else Some x, s)"
    by (intro processEvent_not_triggered) simp
  moreover have "processEvents s (pre @ e # post) =
     filter (\<lambda>x. Event.Type x \<noteq> []) pre @ with_prefill (prefill s) e
       # filter (\<lambda>x. Event.Type x \<noteq> []) post"
    using Cons by simp
  ultimately show ?case by simp
qed

lemma processEvents_no_trigger:
  assumes "\<forall>x\<in>set events. \<not> (is_text_start x
            \<and> (prefillClosingTag s = [] \<or> Contains (start_text x) (prefillClosingTag s)))"
  shows "processEvents s events = filter (\<lambda>x. Event.Type x \<noteq> []) events"
  using assms
proof (induction events)
  case Nil
  show ?case by simp
next
  case (Cons x events)
  then have "processEvent s x = (if Event.Type x = [] then None else Some x, s)"
    by (intro processEvent_not_triggered) simp
  moreover have "processEvents s events = filter (\<lambda>x. Event.Type x \<noteq> []) events"
    using Cons by simp
  ultimately show ?case by simp
qed

lemma example_reader_events:
  assumes "\<forall>l\<in>set ls. is_line l"
  shows "ServerSentEventsReader_events asciiTrimSpace decodeExample (example_reader (concat ls))
           = events_of_lines asciiTrimSpace decodeExample ls"
proof -
  have p: "example_reader bytes = (example_reader [])\<lparr>pending := bytes\<rparr>" for bytes
    by (simp add: example_reader_def NewServerSentEventsReader_def)
  have "\<forall>l\<in>set ls. is_line l \<and> callback_passes (example_reader []) l"
    using assms
    by (simp add: callback_passes_def example_reader_def NewServerSentEventsReader_def)
  then show ?thesis
    by (subst p) (simp only: ServerSentEventsReader_events_lines)
qed

lemmas decode_defs =
  asciiTrimSpace_def asciiSpace_def line_payload_def TrimPrefix_def HasPrefix_def
  decodeExample_def

lemma example_lines_events:
  "ServerSentEventsReader_events asciiTrimSpace decodeExample
     (example_reader (concat example_lines))
     = [bare_event EventTypePing, bare_event [], tool_start 2 ''t1'' ''get'']
       @ text_start 0 ''abc'' # [text_start 1 ''x</r>y'']"
proof -
  have "\<forall>l\<in>set example_lines. is_line l"
    by (simp add: example_lines_def is_line_def)
  then show ?thesis
    by (simp add: example_reader_events) (simp add: example_lines_def decode_defs)
qed

lemma example_lines_no_text_events:
  "ServerSentEventsReader_events asciiTrimSpace decodeExample
     (example_reader (concat example_lines_no_text))
     = [bare_event EventTypePing, tool_start 2 ''t1'' ''get'']"
proof -
  have "\<forall>l\<in>set example_lines_no_text. is_line l"
    by (simp add: example_lines_no_text_def is_line_def)
  then show ?thesis
    by (simp add: example_reader_events) (simp add: example_lines_no_text_def decode_defs)
qed

text \<open>
  Claim C6. With a non-empty prefill and no closing tag, of the events that the reader
  yields the first \<open>content_block_start\<close> of a text block is surfaced with the prefill
  in front of its text; every event before it and every event after it, later text
  starts included, is surfaced as it came (events with an empty type are swallowed). If
  no text block starts, no event is modified.
\<close>

theorem prefill_goes_to_first_text_start_only:
  assumes "prefill s \<noteq> []" "prefillClosingTag s = []"
  shows "(ServerSentEventsReader_events TrimSpace Unmarshal (reader s) = pre @ e # post
          \<and> (\<forall>x\<in>set pre. \<not> is_text_start x) \<and> is_text_start e \<longrightarrow>
            StreamIterator_events TrimSpace Unmarshal s =
              map Some (filter (\<lambda>x. Event.Type x \<noteq> []) pre @ with_prefill (prefill s) e
                          # filter (\<lambda>x. Event.Type x \<noteq> []) post))
       \<and> ((\<forall>x\<in>set (ServerSentEventsReader_events TrimSpace Unmarshal (reader s)).
              \<not> is_text_start x) \<longrightarrow>
            StreamIterator_events TrimSpace Unmarshal s =
              map Some (filter (\<lambda>x. Event.Type x \<noteq> [])
                          (ServerSentEventsReader_events TrimSpace Unmarshal (reader s))))"
proof (intro conjI impI)
  assume a: "ServerSentEventsReader_events TrimSpace Unmarshal (reader s) = pre @ e # post
          \<and> (\<forall>x\<in>set pre. \<not> is_text_start x) \<and> is_text_start e"
  then have "processEvents s (pre @ e # post) =
      filter (\<lambda>x. Event.Type x \<noteq> []) pre @ with_prefill (prefill s) e
        # filter (\<lambda>x. Event.Type x \<noteq> []) post"
    using assms by (intro processEvents_first_trigger) auto
  then show "StreamIterator_events TrimSpace Unmarshal s =
      map Some (filter (\<lambda>x. Event.Type x \<noteq> []) pre @ with_prefill (prefill s) e
                  # filter (\<lambda>x. Event.Type x \<noteq> []) post)"
    using a by (simp add: StreamIterator_events_processEvents)
next
  assume a: "\<forall>x\<in>set (ServerSentEventsReader_events TrimSpace Unmarshal (reader s)).
              \<not> is_text_start x"
  then have "processEvents s (ServerSentEventsReader_events TrimSpace Unmarshal (reader s)) =
      filter (\<lambda>x. Event.Type x \<noteq> [])
        (ServerSentEventsReader_events TrimSpace Unmarshal (reader s))"
    by (intro processEvents_no_trigger) auto
  then show "StreamIterator_events TrimSpace Unmarshal s =
      map Some (filter (\<lambda>x. Event.Type x \<noteq> [])
                  (ServerSentEventsReader_events TrimSpace Unmarshal (reader s)))"
    by (simp add: StreamIterator_events_processEvents)
qed

theorem prefill_goes_to_first_text_start_only_witness:
  "StreamIterator_events asciiTrimSpace decodeExample
     (example_iterator ''PREFIX: '' [] (concat example_lines))
     = [Some (bare_event EventTypePing), Some (tool_start 2 ''t1'' ''get''),
        Some (text_start 0 ''PREFIX: abc''), Some (text_start 1 ''x</r>y'')]
   \<and> StreamIterator_events asciiTrimSpace decodeExample
     (example_iterator ''PREFIX: '' [] (concat example_lines_no_text))
     = [Some (bare_event EventTypePing), Some (tool_start 2 ''t1'' ''get'')]"
proof -
  let ?s = "example_iterator ''PREFIX: '' [] (concat example_lines)"
  let ?t = "example_iterator ''PREFIX: '' [] (concat example_lines_no_text)"
  let ?pre = "[bare_event EventTypePing, bare_event [], tool_start 2 ''t1'' ''get'']"
  have h1: "prefill ?s \<noteq> []" and h2: "prefillClosingTag ?s = []"
    by (simp_all add: example_iterator_def)
  have h3: "ServerSentEventsReader_events asciiTrimSpace decodeExample (reader ?s)
              = ?pre @ text_start 0 ''abc'' # [text_start 1 ''x</r>y'']"
    using example_lines_events by (simp add: example_iterator_def)
  have h4: "\<forall>x\<in>set ?pre. \<not> is_text_start x"
    by (simp add: is_text_start_def example_defs EventType_defs ContentTypeText_def
          ContentTypeToolUse_def)
  have h5: "is_text_start (text_start 0 ''abc'')"
    by (simp add: is_text_start_def example_defs)
  have k1: "prefill ?t \<noteq> []" and k2: "prefillClosingTag ?t = []"
    by (simp_all add: example_iterator_def)
  have k3: "ServerSentEventsReader_events asciiTrimSpace decodeExample (reader ?t)
              = [bare_event EventTypePing, tool_start 2 ''t1'' ''get'']"
    using example_lines_no_text_events by (simp add: example_iterator_def)
  have k4: "\<forall>x\<in>set (ServerSentEventsReader_events asciiTrimSpace decodeExample (reader ?t)).
              \<not> is_text_start x"
    unfolding k3
    by (simp add: is_text_start_def example_defs EventType_defs ContentTypeText_def
          ContentTypeToolUse_def)
  have "StreamIterator_events asciiTrimSpace decodeExample ?s
     = [Some (bare_event EventTypePing), Some (tool_start 2 ''t1'' ''get''),
        Some (text_start 0 ''PREFIX: abc''), Some (text_start 1 ''x</r>y'')]"
    using prefill_goes_to_first_text_start_only [OF h1 h2, THEN conjunct1, rule_format,
      OF conjI [OF h3 conjI [OF h4 h5]]]
    by (simp add: example_iterator_def with_prefill_def example_defs EventType_defs)
  moreover have "StreamIterator_events asciiTrimSpace decodeExample ?t
     = [Some (bare_event EventTypePing), Some (tool_start 2 ''t1'' ''get'')]"
    using prefill_goes_to_first_text_start_only [OF k1 k2, THEN conjunct2, THEN mp, OF k4]
    by (simp add: k3) (simp add: example_defs EventType_defs)
  ultimately show ?thesis by simp
qed

text \<open>
  Claim C7, as amended. The only text that \<open>processEvent\<close> inspects is the text carried
  by a \<open>content_block_start\<close> event of a text block. With a non-empty prefill and a
  non-empty closing tag, such an event whose text does not contain the tag is surfaced
  unmodified and leaves the prefill pending. A \<open>content_block_delta\<close> event is surfaced
  unmodified and leaves the prefill pending whatever it carries, also when its text
  contains the tag. Of the events that the reader yields, the first text block start
  whose text contains the tag is the one surfaced with the prefill in front; every event
  before it and after it is surfaced as it came. If no text block start contains the
  tag, no event is modified.
\<close>

theorem prefill_waits_for_closing_tag:
  assumes "prefill s \<noteq> []" "prefillClosingTag s \<noteq> []"
  shows "(is_text_start x \<and> \<not> Contains (start_text x) (prefillClosingTag s) \<longrightarrow>
            processEvent s x = (Some x, s))
       \<and> (Event.Type d = EventTypeContentBlockDelta \<longrightarrow> processEvent s d = (Some d, s))
       \<and> (ServerSentEventsReader_events TrimSpace Unmarshal (reader s) = pre @ e # post
          \<and> (\<forall>x\<in>set pre. \<not> (is_text_start x
                                \<and> Contains (start_text x) (prefillClosingTag s)))
          \<and> is_text_start e \<and> Contains (start_text e) (prefillClosingTag s) \<longrightarrow>
            StreamIterator_events TrimSpace Unmarshal s =
              map Some (filter (\<lambda>x. Event.Type x \<noteq> []) pre @ with_prefill (prefill s) e
                          # filter (\<lambda>x. Event.Type x \<noteq> []) post))
       \<and> ((\<forall>x\<in>set (ServerSentEventsReader_events TrimSpace Unmarshal (reader s)).
              \<not> (is_text_start x \<and> Contains (start_text x) (prefillClosingTag s))) \<longrightarrow>
            StreamIterator_events TrimSpace Unmarshal s =
              map Some (filter (\<lambda>x. Event.Type x \<noteq> [])
                          (ServerSentEventsReader_events TrimSpace Unmarshal (reader s))))"
proof (intro conjI impI)
  assume a: "is_text_start x \<and> \<not> Contains (start_text x) (prefillClosingTag s)"
  then have "Event.Type x \<noteq> []"
    by (simp add: is_text_start_def EventTypeContentBlockStart_def)
  moreover have "processEvent s x = (if Event.Type x = [] then None else Some x, s)"
    using a assms(2) by (intro processEvent_not_triggered) simp
  ultimately show "processEvent s x = (Some x, s)" by simp
next
  assume "Event.Type d = EventTypeContentBlockDelta"
  then show "processEvent s d = (Some d, s)"
    by (simp add: processEvent_def EventType_defs)
next
  assume a: "ServerSentEventsReader_events TrimSpace Unmarshal (reader s) = pre @ e # post
          \<and> (\<forall>x\<in>set pre. \<not> (is_text_start x
                                \<and> Contains (start_text x) (prefillClosingTag s)))
          \<and> is_text_start e \<and> Contains (start_text e) (prefillClosingTag s)"
  then have "processEvents s (pre @ e # post) =
      filter (\<lambda>x. Event.Type x \<noteq> []) pre @ with_prefill (prefill s) e
        # filter (\<lambda>x. Event.Type x \<noteq> []) post"
    using assms by (intro processEvents_first_trigger) auto
  then show "StreamIterator_events TrimSpace Unmarshal s =
      map Some (filter (\<lambda>x. Event.Type x \<noteq> []) pre @ with_prefill (prefill s) e
                  # filter (\<lambda>x. Event.Type x \<noteq> []) post)"
    using a by (simp add: StreamIterator_events_processEvents)
next
  assume a: "\<forall>x\<in>set (ServerSentEventsReader_events TrimSpace Unmarshal (reader s)).
              \<not> (is_text_start x \<and> Contains (start_text x) (prefillClosingTag s))"
  then have "processEvents s (ServerSentEventsReader_events TrimSpace Unmarshal (reader s)) =
      filter (\<lambda>x. Event.Type x \<noteq> [])
        (ServerSentEventsReader_events TrimSpace Unmarshal (reader s))"
    using assms(2) by (intro processEvents_no_trigger) auto
  then show "StreamIterator_events TrimSpace Unmarshal s =
      map Some (filter (\<lambda>x. Event.Type x \<noteq> [])
                  (ServerSentEventsReader_events TrimSpace Unmarshal (reader s)))"
    by (simp add: StreamIterator_events_processEvents)
qed

theorem prefill_waits_for_closing_tag_witness:
  "processEvent (example_iterator ''PREFIX: '' ''</r>'' (concat example_lines))
     (text_start 0 ''abc'')
     = (Some (text_start 0 ''abc''),
        example_iterator ''PREFIX: '' ''</r>'' (concat example_lines))
   \<and> processEvent (example_iterator ''PREFIX: '' ''</r>'' (concat example_lines))
       (delta_event 0 EventDeltaTypeText ''<r>x</r>y'')
     = (Some (delta_event 0 EventDeltaTypeText ''<r>x</r>y''),
        example_iterator ''PREFIX: '' ''</r>'' (concat example_lines))
   \<and> StreamIterator_events asciiTrimSpace decodeExample
       (example_iterator ''PREFIX: '' ''</r>'' (concat example_lines))
     = [Some (bare_event EventTypePing), Some (tool_start 2 ''t1'' ''get''),
        Some (text_start 0 ''abc''), Some (text_start 1 ''PREFIX: x</r>y'')]
   \<and> StreamIterator_events asciiTrimSpace decodeExample
       (example_iterator ''PREFIX: '' ''</q>'' (concat example_lines))
     = [Some (bare_event EventTypePing), Some (tool_start 2 ''t1'' ''get''),
        Some (text_start 0 ''abc''), Some (text_start 1 ''x</r>y'')]"
proof -
  let ?s = "example_iterator ''PREFIX: '' ''</r>'' (concat example_lines)"
  let ?t = "example_iterator ''PREFIX: '' ''</q>'' (concat example_lines)"
  let ?pre = "[bare_event EventTypePing, bare_event [], tool_start 2 ''t1'' ''get'',
               text_start 0 ''abc'']"
  have h1: "prefill ?s \<noteq> []" and h2: "prefillClosingTag ?s \<noteq> []"
    by (simp_all add: example_iterator_def)
  have tag: "prefillClosingTag ?s = ''</r>''"
    by (simp add: example_iterator_def)
  have h3: "ServerSentEventsReader_events asciiTrimSpace decodeExample (reader ?s)
              = ?pre @ text_start 1 ''x</r>y'' # []"
    using example_lines_events by (simp add: example_iterator_def)
  have h4: "\<forall>x\<in>set ?pre. \<not> (is_text_start x \<and> Contains (start_text x) (prefillClosingTag ?s))"
    unfolding tag
    by (simp add: is_text_start_def start_text_def example_defs EventType_defs
          ContentTypeText_def ContentTypeToolUse_def HasPrefix_def)
  have h5: "is_text_start (text_start 1 ''x</r>y'')
            \<and> Contains (start_text (text_start 1 ''x</r>y'')) (prefillClosingTag ?s)"
    unfolding tag
    by (simp add: is_text_start_def start_text_def example_defs HasPrefix_def)
  have h6: "is_text_start (text_start 0 ''abc'')
            \<and> \<not> Contains (start_text (text_start 0 ''abc'')) (prefillClosingTag ?s)"
    unfolding tag
    by (simp add: is_text_start_def start_text_def example_defs HasPrefix_def)
  have k1: "prefill ?t \<noteq> []" and k2: "prefillClosingTag ?t \<noteq> []"
    by (simp_all add: example_iterator_def)
  have tag': "prefillClosingTag ?t = ''</q>''"
    by (simp add: example_iterator_def)
  have k3: "ServerSentEventsReader_events asciiTrimSpace decodeExample (reader ?t)
              = ?pre @ [text_start 1 ''x</r>y'']"
    using example_lines_events by (simp add: example_iterator_def)
  have k4: "\<forall>x\<in>set (ServerSentEventsReader_events asciiTrimSpace decodeExample (reader ?t)).
              \<not> (is_text_start x \<and> Contains (start_text x) (prefillClosingTag ?t))"
    unfolding k3 tag'
    by (simp add: is_text_start_def start_text_def example_defs EventType_defs
          ContentTypeText_def ContentTypeToolUse_def HasPrefix_def)
  note t = prefill_waits_for_closing_tag [OF h1 h2]
  have h7: "Event.Type (delta_event 0 EventDeltaTypeText ''<r>x</r>y'') = EventTypeContentBlockDelta"
    by (simp add: example_defs)
  have "processEvent ?s (text_start 0 ''abc'') = (Some (text_start 0 ''abc''), ?s)"
    using t [THEN conjunct1, rule_format, OF h6] .
  moreover have "processEvent ?s (delta_event 0 EventDeltaTypeText ''<r>x</r>y'')
      = (Some (delta_event 0 EventDeltaTypeText ''<r>x</r>y''), ?s)"
    using t [THEN conjunct2, THEN conjunct1, THEN mp, OF h7] .
  moreover have "StreamIterator_events asciiTrimSpace decodeExample ?s
     = [Some (bare_event EventTypePing), Some (tool_start 2 ''t1'' ''get''),
        Some (text_start 0 ''abc''), Some (text_start 1 ''PREFIX: x</r>y'')]"
    using t [THEN conjunct2, THEN conjunct2, THEN conjunct1, rule_format,
      OF conjI [OF h3 conjI [OF h4 h5]]]
    by (simp add: example_iterator_def with_prefill_def example_defs EventType_defs)
  moreover have "StreamIterator_events asciiTrimSpace decodeExample ?t
     = [Some (bare_event EventTypePing), Some (tool_start 2 ''t1'' ''get''),
        Some (text_start 0 ''abc''), Some (text_start 1 ''x</r>y'')]"
    using prefill_waits_for_closing_tag [OF k1 k2, THEN conjunct2, THEN conjunct2,
      THEN conjunct2, THEN mp, OF k4]
    by (simp add: k3) (simp add: example_defs EventType_defs)
  ultimately show ?thesis by simp
qed


text \<open>
  Claim C7 as stated fails when the later fragment that contains the closing tag is a
  text delta: the block starts with empty text, the delta \<open><r>x</r>y\<close> holds the tag
  \<open></r>\<close>, and both events are surfaced as they came. The prefill is never injected.
\<close>

theorem closing_tag_in_text_delta_never_injects:
  "StreamIterator_events asciiTrimSpace decodeDeltaExample
     (example_iterator ''PREFIX: '' ''</r>'' (concat delta_lines))
     = [Some (text_start 0 []), Some (delta_event 0 EventDeltaTypeText ''<r>x</r>y'')]
   \<and> Contains ''<r>x</r>y'' ''</r>''"
proof -
  let ?s = "example_iterator ''PREFIX: '' ''</r>'' (concat delta_lines)"
  let ?events = "[text_start 0 [], delta_event 0 EventDeltaTypeText ''<r>x</r>y'']"
  have p: "example_reader bytes = (example_reader [])\<lparr>pending := bytes\<rparr>" for bytes
    by (simp add: example_reader_def NewServerSentEventsReader_def)
  have ls: "\<forall>l\<in>set delta_lines. is_line l \<and> callback_passes (example_reader []) l"
    by (simp add: delta_lines_def is_line_def callback_passes_def example_reader_def
          NewServerSentEventsReader_def)
  have "events_of_lines asciiTrimSpace decodeDeltaExample delta_lines = ?events"
    by (simp add: delta_lines_def asciiTrimSpace_def asciiSpace_def line_payload_def
          TrimPrefix_def HasPrefix_def decodeDeltaExample_def)
  then have ev: "ServerSentEventsReader_events asciiTrimSpace decodeDeltaExample (reader ?s)
                   = ?events"
    by (simp add: example_iterator_def)
       (subst p, simp only: ServerSentEventsReader_events_lines [OF ls])
  have tag: "prefillClosingTag ?s = ''</r>''"
    by (simp add: example_iterator_def)
  have "\<forall>x\<in>set ?events. \<not> (is_text_start x
           \<and> (prefillClosingTag ?s = [] \<or> Contains (start_text x) (prefillClosingTag ?s)))"
    unfolding tag
    by (simp add: is_text_start_def start_text_def example_defs EventType_defs HasPrefix_def)
  then have "processEvents ?s ?events = filter (\<lambda>x. Event.Type x \<noteq> []) ?events"
    by (rule processEvents_no_trigger)
  then have "StreamIterator_events asciiTrimSpace decodeDeltaExample ?s = map Some ?events"
    using StreamIterator_events_processEvents [OF ev]
    by (simp add: example_defs EventType_defs)
  moreover have "Contains ''<r>x</r>y'' ''</r>''"
    by (simp add: HasPrefix_def)
  ultimately show ?thesis by simp
qed

end
